theory Spec2Isabelle
  imports Main "HOL-Library.Word"
begin

section \<open>Arbitrary-precision integers in base 100 (Integer.h, Integer.cpp)\<close>

text \<open>
  \<^verbatim>\<open>using DigitType = unsigned char; const int BASE = 100;\<close>
  A digit slot is an unsigned byte. It is modelled as a natural number, and every
  \<^verbatim>\<open>static_cast<DigitType>(x)\<close> of the source is written out as a reduction modulo 256.
  The \<^verbatim>\<open>int\<close> and \<^verbatim>\<open>long long\<close> locals of the digit loops hold sums and products of
  bytes and of carries below 1000, far from their limits, so they are unbounded here:
  \<open>nat\<close> where the source only adds and multiplies unsigned digits, \<open>int\<close> where it
  subtracts.
\<close>

type_synonym DigitType = nat

definition BASE :: nat where
  "BASE = 100"

definition to_DigitType :: "int \<Rightarrow> DigitType" where
  "to_DigitType x = nat (x mod 256)"

text \<open>
  How a call can end without a value: \<^verbatim>\<open>throw std::invalid_argument(msg)\<close>, which the
  caller can catch; \<^verbatim>\<open>exit(EXIT_FAILURE)\<close> after a message on \<^verbatim>\<open>std::cerr\<close>, which
  ends the process; and an access past the end of an array or vector, which C++ leaves
  undefined and which is kept as an outcome of its own so that its absence is proved
  rather than assumed.
\<close>

datatype failure =
    invalid_argument string
  | exit_failure string
  | out_of_bounds

text \<open>
  A failure that the caller can handle is a thrown exception; \<^verbatim>\<open>exit\<close> ends the
  process before the caller runs again.
\<close>

fun recoverable :: "failure \<Rightarrow> bool" where
  "recoverable (invalid_argument msg) = True"
| "recoverable (exit_failure msg) = False"
| "recoverable out_of_bounds = False"

text \<open>
  \<^verbatim>\<open>class Integer { bool sign = false; std::vector<DigitType> digits; ... }\<close>
  \<open>sign\<close> is true for a negative value; \<open>digits\<close> holds the base-100 digits, least
  significant first.
\<close>

record Integer =
  sign :: bool
  digits :: "DigitType list"

text \<open>\<^verbatim>\<open>Integer() = default;\<close>\<close>

definition Integer_default :: Integer where
  "Integer_default = \<lparr>sign = False, digits = []\<rparr>"

text \<open>\<^verbatim>\<open>bool Integer::isZero() const { return digits.empty(); }\<close>\<close>

definition isZero :: "Integer \<Rightarrow> bool" where
  "isZero i = (digits i = [])"

text \<open>\<^verbatim>\<open>bool Integer::isNegative() const { return sign && !isZero(); }\<close>\<close>

definition isNegative :: "Integer \<Rightarrow> bool" where
  "isNegative i = (sign i \<and> \<not> isZero i)"

text \<open>\<^verbatim>\<open>int Integer::signum() const { return isZero() ? 0 : (sign ? -1 : 1); }\<close>\<close>

definition signum :: "Integer \<Rightarrow> int" where
  "signum i = (if isZero i then 0 else if sign i then - 1 else 1)"

subsection \<open>normalize\<close>

text \<open>
  The loop \<^verbatim>\<open>while (digits.size() > 1 && digits.back() == 0) digits.pop_back();\<close>
\<close>

function pop_zeros :: "DigitType list \<Rightarrow> DigitType list" where
  "pop_zeros ds = (if 1 < length ds \<and> last ds = 0 then pop_zeros (butlast ds) else ds)"
  by pat_completeness auto
termination
  by (relation "measure length") auto

declare pop_zeros.simps [simp del]

text \<open>
  \<^verbatim>\<open>void Integer::normalize()\<close>: after the loop, an empty vector or the single digit 0
  becomes the empty vector with \<open>sign = false\<close>; an empty vector has \<open>sign = false\<close>.
\<close>

definition normalize_Integer :: "Integer \<Rightarrow> Integer" where
  "normalize_Integer i =
     (let ds = pop_zeros (digits i);
          i1 = (if ds = [] \<or> (length ds = 1 \<and> ds ! 0 = 0)
                then \<lparr>sign = False, digits = []\<rparr>
                else \<lparr>sign = sign i, digits = ds\<rparr>)
      in if digits i1 = [] then i1\<lparr>sign := False\<rparr> else i1)"

subsection \<open>Constructors\<close>

text \<open>
  \<^verbatim>\<open>Integer::Integer(bool s, std::vector<DigitType> d_vec)\<close>: throws when a digit is not
  below \<open>BASE\<close>, otherwise normalizes.
\<close>

definition Integer_vec :: "bool \<Rightarrow> DigitType list \<Rightarrow> failure + Integer" where
  "Integer_vec s d_vec =
     (if list_ex (\<lambda>dig. BASE \<le> dig) d_vec
      then Inl (invalid_argument ''Invalid digit in vector constructor'')
      else Inr (normalize_Integer \<lparr>sign = s, digits = d_vec\<rparr>))"

text \<open>
  The loop \<^verbatim>\<open>while (v > 0) { digits.push_back(v % BASE); v /= BASE; }\<close> of the
  constructor from \<^verbatim>\<open>long long\<close>, on the value of the \<^verbatim>\<open>unsigned long long v\<close>.
\<close>

function push_digits :: "nat \<Rightarrow> DigitType list" where
  "push_digits v = (if 0 < v then to_DigitType (int (v mod BASE)) # push_digits (v div BASE) else [])"
  by pat_completeness auto
termination
  by (relation "measure id") (auto simp: BASE_def)

declare push_digits.simps [simp del]

text \<open>
  \<^verbatim>\<open>Integer::Integer(long long i)\<close>. The argument is a 64-bit word read as two's
  complement. \<^verbatim>\<open>std::numeric_limits<long long>::min()\<close> is the word \<open>2 ^ 63\<close> and
  \<open>max()\<close> the word \<open>2 ^ 63 - 1\<close>; \<^verbatim>\<open>std::abs(i)\<close> is the overload for
  \<^verbatim>\<open>long long\<close>, so for any other negative argument it is the word \<open>- i\<close>. The
  conversion to \<^verbatim>\<open>unsigned long long\<close> keeps the bits.
\<close>

definition LLONG_MIN :: "64 word" where
  "LLONG_MIN = 2 ^ 63"

definition LLONG_MAX :: "64 word" where
  "LLONG_MAX = 2 ^ 63 - 1"

definition Integer_ll :: "64 word \<Rightarrow> Integer" where
  "Integer_ll i =
     (if i = 0 then \<lparr>sign = i <s 0, digits = []\<rparr>
      else let v = (if i = LLONG_MIN then LLONG_MAX + 1
                    else if i <s 0 then - i else i)
           in \<lparr>sign = i <s 0, digits = push_digits (unat v)\<rparr>)"

text \<open>
  \<^verbatim>\<open>Integer::Integer(bool s, int n, const char *d)\<close>. The pointer is \<open>None\<close> for
  \<^verbatim>\<open>nullptr\<close>, otherwise the array it points to, a list of bytes. Reading \<open>d[n-1]\<close>
  in an array shorter than \<open>n\<close> is an access past its end.

  The loop \<^verbatim>\<open>while (m > 1 && d[m-1] == 0) --m;\<close>
\<close>

function skip_zeros :: "8 word list \<Rightarrow> nat \<Rightarrow> nat" where
  "skip_zeros d m = (if 1 < m \<and> d ! (m - 1) = 0 then skip_zeros d (m - 1) else m)"
  by pat_completeness auto
termination
  by (relation "measure snd") auto

declare skip_zeros.simps [simp del]

text \<open>
  The test \<^verbatim>\<open>static_cast<unsigned char>(d[i]) >= BASE || d[i] < 0\<close>. Where \<^verbatim>\<open>char\<close> is
  signed, \<open>d[i] < 0\<close> reads the byte as two's complement; where it is unsigned the second
  disjunct is false. Both give the same test, since a negative byte is at least 128 when
  read unsigned (lemma \<open>bad_char_unat\<close> below).
\<close>

definition bad_char :: "8 word \<Rightarrow> bool" where
  "bad_char c = (BASE \<le> unat c \<or> c <s 0)"

text \<open>
  The loop \<^verbatim>\<open>for (int i = 0; i < m; ++i) { if (...) throw ...; digits.push_back(d[i]); }\<close>,
  from index \<open>i\<close> on, with the digits pushed so far.
\<close>

function copy_digits :: "8 word list \<Rightarrow> nat \<Rightarrow> nat \<Rightarrow> DigitType list \<Rightarrow> failure + DigitType list" where
  "copy_digits d m i ds =
     (if i < m
      then if bad_char (d ! i)
           then Inl (invalid_argument ''Invalid digit in char* constructor'')
           else copy_digits d m (i + 1) (ds @ [to_DigitType (uint (d ! i))])
      else Inr ds)"
  by pat_completeness auto
termination
  by (relation "measure (\<lambda>(d, m, i, ds). m - i)") auto

declare copy_digits.simps [simp del]

definition Integer_array :: "bool \<Rightarrow> int \<Rightarrow> 8 word list option \<Rightarrow> failure + Integer" where
  "Integer_array s n d =
     (case d of
        None \<Rightarrow> Inr \<lparr>sign = False, digits = []\<rparr>
      | Some a \<Rightarrow>
          if n \<le> 0 then Inr \<lparr>sign = False, digits = []\<rparr>
          else if int (length a) < n then Inl out_of_bounds
          else let m = skip_zeros a (nat n)
               in if m = 1 \<and> a ! 0 = 0 then Inr \<lparr>sign = False, digits = []\<rparr>
                  else (case copy_digits a m 0 [] of
                          Inl e \<Rightarrow> Inl e
                        | Inr ds \<Rightarrow> Inr (normalize_Integer \<lparr>sign = s, digits = ds\<rparr>)))"

subsection \<open>Output\<close>

text \<open>
  The formatting state of a \<^verbatim>\<open>std::ostream\<close> that an insertion reads, and that the
  caller sets with \<^verbatim>\<open>std::hex\<close>, \<^verbatim>\<open>std::showpos\<close>, \<^verbatim>\<open>std::left\<close>, \<^verbatim>\<open>std::setw\<close>
  and the like. \<open>operator<<\<close> for \<open>Integer\<close> sets the width and the fill character
  only; base, sign and adjustment flags are the caller's. \<open>good\<close> is false for a stream
  in a failed state, into which an insertion writes nothing. \<open>adjust_right\<close> also stands
  for an empty \<open>adjustfield\<close>, which pads the same way, and \<open>base_dec\<close> for every
  \<open>basefield\<close> other than \<open>oct\<close> and \<open>hex\<close>. The stream has the classic locale: no
  digit grouping.
\<close>

datatype basefield = base_dec | base_oct | base_hex

datatype adjustfield = adjust_left | adjust_right | adjust_internal

record ios_state =
  good :: bool
  base :: basefield
  showbase :: bool
  showpos :: bool
  uppercase :: bool
  adjust :: adjustfield
  width :: nat
  fill :: char

text \<open>A stream as constructed: decimal, no flags, width 0, fill character space.\<close>

definition default_ios :: ios_state where
  "default_ios =
     \<lparr>good = True, base = base_dec, showbase = False, showpos = False, uppercase = False,
      adjust = adjust_right, width = 0, fill = CHR '' ''\<rparr>"

text \<open>
  Padding to the width: fill characters after the text for \<open>left\<close>, between the sign or
  \<open>0x\<close> prefix and the rest for \<open>internal\<close>, before the text otherwise.
\<close>

definition pad :: "ios_state \<Rightarrow> string \<Rightarrow> string \<Rightarrow> string" where
  "pad st pre body =
     (let f = replicate (width st - (length pre + length body)) (fill st)
      in case adjust st of
           adjust_left \<Rightarrow> pre @ body @ f
         | adjust_internal \<Rightarrow> pre @ f @ body
         | adjust_right \<Rightarrow> f @ pre @ body)"

text \<open>
  \<^verbatim>\<open>os << s\<close> for a character string: the string padded to the width, and the width
  back to 0.
\<close>

definition put_string :: "ios_state \<Rightarrow> string \<Rightarrow> string \<times> ios_state" where
  "put_string st s = (if good st then (pad st [] s, st\<lparr>width := 0\<rparr>) else ([], st))"

text \<open>The digits of a natural number in base ten, most significant first.\<close>

definition digit_char :: "nat \<Rightarrow> char" where
  "digit_char n = ''0123456789'' ! n"

function decimal :: "nat \<Rightarrow> string" where
  "decimal n = (if n < 10 then [digit_char n] else decimal (n div 10) @ [digit_char (n mod 10)])"
  by pat_completeness auto
termination
  by (relation "measure id") auto

declare decimal.simps [simp del]

text \<open>The digits in base 8 or 16, in lower or upper case.\<close>

definition radix_char :: "bool \<Rightarrow> nat \<Rightarrow> char" where
  "radix_char up n = (if up then ''0123456789ABCDEF'' else ''0123456789abcdef'') ! n"

function radix_text :: "nat \<Rightarrow> bool \<Rightarrow> nat \<Rightarrow> string" where
  "radix_text b up n =
     (if n < b \<or> b < 2 then [radix_char up n]
      else radix_text b up (n div b) @ [radix_char up (n mod b)])"
  by pat_completeness auto
termination
  by (relation "measure (\<lambda>(b, up, n). n)") auto

declare radix_text.simps [simp del]

text \<open>
  \<^verbatim>\<open>os << x\<close> for an \<^verbatim>\<open>int\<close>, as \<^verbatim>\<open>num_put\<close> converts it. In decimal the value is
  signed, with \<open>+\<close> before a value that is not negative under \<open>showpos\<close>. In octal and
  hexadecimal the 32 bits are read unsigned, and \<open>showbase\<close> puts \<open>0\<close> or \<open>0x\<close> before a
  value that is not zero. The prefix is the part that \<open>internal\<close> padding follows: the
  sign or \<open>0x\<close>.
\<close>

definition int_text :: "ios_state \<Rightarrow> int \<Rightarrow> string \<times> string" where
  "int_text st x =
     (case base st of
        base_dec \<Rightarrow>
          ((if x < 0 then ''-'' else if showpos st then ''+'' else []), decimal (nat \<bar>x\<bar>))
      | base_oct \<Rightarrow>
          (let u = nat (x mod 2 ^ 32)
           in ([], (if showbase st \<and> u \<noteq> 0 then ''0'' else []) @ radix_text 8 False u))
      | base_hex \<Rightarrow>
          (let u = nat (x mod 2 ^ 32)
           in ((if showbase st \<and> u \<noteq> 0 then (if uppercase st then ''0X'' else ''0x'') else []),
               radix_text 16 (uppercase st) u)))"

definition put_int :: "ios_state \<Rightarrow> int \<Rightarrow> string \<times> ios_state" where
  "put_int st x =
     (if good st
      then (let (pre, body) = int_text st x in (pad st pre body, st\<lparr>width := 0\<rparr>))
      else ([], st))"

text \<open>
  The loop \<^verbatim>\<open>for (int j = size - 2; j >= 0; --j) os << setw(2) << setfill('0') << int(digits[j]);\<close>
  with \<open>k = j + 1\<close> digits left to write: the text written and the state the stream is
  left in.
\<close>

fun write_low_digits :: "ios_state \<Rightarrow> DigitType list \<Rightarrow> nat \<Rightarrow> string \<times> ios_state" where
  "write_low_digits st ds 0 = ([], st)"
| "write_low_digits st ds (Suc j) =
     (let (t, st1) = put_int (st\<lparr>width := 2, fill := CHR ''0''\<rparr>) (int (ds ! j));
          (u, st2) = write_low_digits st1 ds j
      in (t @ u, st2))"

text \<open>
  \<^verbatim>\<open>std::ostream &operator<<(std::ostream &os, const Integer &i)\<close>: the text written
  and the state the stream is left in. The last statement, \<^verbatim>\<open>os << std::setfill(' ')\<close>,
  leaves the fill character at space.
\<close>

definition ostream_Integer :: "ios_state \<Rightarrow> Integer \<Rightarrow> string \<times> ios_state" where
  "ostream_Integer st i =
     (if isZero i then put_string st ''0''
      else let (t1, st1) = (if sign i then put_string st ''-'' else ([], st));
               (t2, st2) = put_int st1 (int (last (digits i)));
               (t3, st3) = write_low_digits st2 (digits i) (length (digits i) - 1)
           in (t1 @ t2 @ t3, st3\<lparr>fill := CHR '' ''\<rparr>))"

subsection \<open>Magnitude helpers\<close>

text \<open>
  The loop \<^verbatim>\<open>for (int i = size - 1; i >= 0; --i)\<close> of \<open>compareMagnitude\<close>, with
  \<open>k = i + 1\<close> digits left to compare.
\<close>

fun compare_digits :: "DigitType list \<Rightarrow> DigitType list \<Rightarrow> nat \<Rightarrow> int" where
  "compare_digits d1 d2 0 = 0"
| "compare_digits d1 d2 (Suc i) =
     (if d1 ! i < d2 ! i then - 1
      else if d2 ! i < d1 ! i then 1
      else compare_digits d1 d2 i)"

definition compareMagnitude :: "Integer \<Rightarrow> Integer \<Rightarrow> int" where
  "compareMagnitude a b =
     (if length (digits a) < length (digits b) then - 1
      else if length (digits b) < length (digits a) then 1
      else if digits a = [] then 0
      else compare_digits (digits a) (digits b) (length (digits a)))"

text \<open>
  The loop of \<open>addMagnitude\<close> over \<open>i < m\<close>, from index \<open>i\<close> on, with the carry and the
  digits pushed so far; it returns the digits and the last carry.
\<close>

function add_loop ::
  "DigitType list \<Rightarrow> DigitType list \<Rightarrow> nat \<Rightarrow> nat \<Rightarrow> nat \<Rightarrow> DigitType list \<Rightarrow> DigitType list \<times> nat" where
  "add_loop d1 d2 m i carry res =
     (if i < m
      then let sum = carry
                 + (if i < length d1 then d1 ! i else 0)
                 + (if i < length d2 then d2 ! i else 0)
           in add_loop d1 d2 m (i + 1) (sum div BASE) (res @ [to_DigitType (int (sum mod BASE))])
      else (res, carry))"
  by pat_completeness auto
termination
  by (relation "measure (\<lambda>(d1, d2, m, i, carry, res). m - i)") auto

declare add_loop.simps [simp del]

definition addMagnitude :: "Integer \<Rightarrow> Integer \<Rightarrow> failure + Integer" where
  "addMagnitude a b =
     (let d1 = digits a; d2 = digits b;
          m = max (length d1) (length d2);
          (res, carry) = add_loop d1 d2 m 0 0 [];
          res' = (if 0 < carry then res @ [to_DigitType (int carry)] else res)
      in case Integer_vec False res' of
           Inl e \<Rightarrow> Inl e
         | Inr result \<Rightarrow> Inr (normalize_Integer result))"

text \<open>
  The loop of \<open>subtractMagnitude\<close> over \<open>i < n1\<close>; it returns the digits and the borrow
  left after the last digit, which the source drops.
\<close>

function sub_loop ::
  "DigitType list \<Rightarrow> DigitType list \<Rightarrow> nat \<Rightarrow> int \<Rightarrow> DigitType list \<Rightarrow> DigitType list \<times> int" where
  "sub_loop d1 d2 i borrow res =
     (if i < length d1
      then let diff = int (d1 ! i) - borrow - (if i < length d2 then int (d2 ! i) else 0)
           in if diff < 0
              then sub_loop d1 d2 (i + 1) 1 (res @ [to_DigitType (diff + int BASE)])
              else sub_loop d1 d2 (i + 1) 0 (res @ [to_DigitType diff])
      else (res, borrow))"
  by pat_completeness auto
termination
  by (relation "measure (\<lambda>(d1, d2, i, borrow, res). length d1 - i)") auto

declare sub_loop.simps [simp del]

definition subtractMagnitude :: "Integer \<Rightarrow> Integer \<Rightarrow> failure + Integer" where
  "subtractMagnitude a b =
     (case Integer_vec False (fst (sub_loop (digits a) (digits b) 0 0 [])) of
        Inl e \<Rightarrow> Inl e
      | Inr result \<Rightarrow> Inr (normalize_Integer result))"

definition final_borrow :: "Integer \<Rightarrow> Integer \<Rightarrow> int" where
  "final_borrow a b = snd (sub_loop (digits a) (digits b) 0 0 [])"

subsection \<open>Arithmetic operators\<close>

text \<open>\<^verbatim>\<open>Integer Integer::operator-() const\<close>\<close>

definition uminus_Integer :: "Integer \<Rightarrow> Integer" where
  "uminus_Integer i = (if isZero i then i else i\<lparr>sign := \<not> sign i\<rparr>)"

text \<open>\<^verbatim>\<open>Integer Integer::operator+(const Integer &rhs) const\<close>\<close>

definition plus_Integer :: "Integer \<Rightarrow> Integer \<Rightarrow> failure + Integer" where
  "plus_Integer a rhs =
     (if sign a = sign rhs
      then (case addMagnitude a rhs of
              Inl e \<Rightarrow> Inl e
            | Inr r \<Rightarrow> Inr (normalize_Integer (r\<lparr>sign := sign a\<rparr>)))
      else let cmp = compareMagnitude a rhs
           in if cmp = 0 then Inr Integer_default
              else if 0 < cmp
              then (case subtractMagnitude a rhs of
                      Inl e \<Rightarrow> Inl e
                    | Inr r \<Rightarrow> Inr (normalize_Integer (r\<lparr>sign := sign a\<rparr>)))
              else (case subtractMagnitude rhs a of
                      Inl e \<Rightarrow> Inl e
                    | Inr r \<Rightarrow> Inr (normalize_Integer (r\<lparr>sign := sign rhs\<rparr>))))"

text \<open>
  The calls of \<open>subtractMagnitude\<close> that \<open>operator+\<close> makes on \<open>a\<close> and \<open>rhs\<close>, as the
  pairs of arguments in the order passed: the branches of \<open>plus_Integer\<close>, with each call
  replaced by its arguments.
\<close>

definition subtractMagnitude_calls :: "Integer \<Rightarrow> Integer \<Rightarrow> (Integer \<times> Integer) list" where
  "subtractMagnitude_calls a rhs =
     (if sign a = sign rhs then []
      else let cmp = compareMagnitude a rhs
           in if cmp = 0 then []
              else if 0 < cmp then [(a, rhs)]
              else [(rhs, a)])"

text \<open>\<^verbatim>\<open>Integer Integer::operator-(const Integer &rhs) const { return *this + (-rhs); }\<close>\<close>

definition minus_Integer :: "Integer \<Rightarrow> Integer \<Rightarrow> failure + Integer" where
  "minus_Integer a rhs = plus_Integer a (uminus_Integer rhs)"

text \<open>
  \<open>operator*\<close>: the inner loop over \<open>j < n2\<close> for row \<open>i\<close>, on the accumulator \<open>tmp\<close>;
  it returns the accumulator and the carry of the row.
\<close>

function mul_row ::
  "DigitType list \<Rightarrow> DigitType list \<Rightarrow> nat \<Rightarrow> nat \<Rightarrow> nat \<Rightarrow> nat list \<Rightarrow> failure + nat list \<times> nat" where
  "mul_row d1 d2 i j carry tmp =
     (if j < length d2
      then if length tmp \<le> i + j then Inl out_of_bounds
           else let v = tmp ! (i + j) + d1 ! i * d2 ! j + carry
                in mul_row d1 d2 i (j + 1) (v div BASE) (tmp[i + j := v mod BASE])
      else Inr (tmp, carry))"
  by pat_completeness auto
termination
  by (relation "measure (\<lambda>(d1, d2, i, j, carry, tmp). length d2 - j)") auto

declare mul_row.simps [simp del]

text \<open>The loop \<^verbatim>\<open>while (carry) { v = tmp[pos] + carry; ...; ++pos; }\<close>\<close>

function mul_carry :: "nat list \<Rightarrow> nat \<Rightarrow> nat \<Rightarrow> failure + nat list" where
  "mul_carry tmp pos carry =
     (if carry \<noteq> 0
      then if length tmp \<le> pos then Inl out_of_bounds
           else let v = tmp ! pos + carry
                in mul_carry (tmp[pos := v mod BASE]) (pos + 1) (v div BASE)
      else Inr tmp)"
  by pat_completeness auto
termination
  by (relation "measure (\<lambda>(tmp, pos, carry). length tmp - pos)") auto

declare mul_carry.simps [simp del]

text \<open>The outer loop over \<open>i < n1\<close>.\<close>

function mul_rows :: "DigitType list \<Rightarrow> DigitType list \<Rightarrow> nat \<Rightarrow> nat list \<Rightarrow> failure + nat list" where
  "mul_rows d1 d2 i tmp =
     (if i < length d1
      then (case mul_row d1 d2 i 0 0 tmp of
              Inl e \<Rightarrow> Inl e
            | Inr (tmp1, carry) \<Rightarrow>
                (case mul_carry tmp1 (i + length d2) carry of
                   Inl e \<Rightarrow> Inl e
                 | Inr tmp2 \<Rightarrow> mul_rows d1 d2 (i + 1) tmp2))
      else Inr tmp)"
  by pat_completeness auto
termination
  by (relation "measure (\<lambda>(d1, d2, i, tmp). length d1 - i)") auto

declare mul_rows.simps [simp del]

text \<open>The loop \<^verbatim>\<open>while (m > 1 && tmp[m-1] == 0) --m;\<close>\<close>

function trim_length :: "nat list \<Rightarrow> nat \<Rightarrow> nat" where
  "trim_length tmp m = (if 1 < m \<and> tmp ! (m - 1) = 0 then trim_length tmp (m - 1) else m)"
  by pat_completeness auto
termination
  by (relation "measure snd") auto

declare trim_length.simps [simp del]

text \<open>\<^verbatim>\<open>Integer Integer::operator*(const Integer &rhs) const\<close>\<close>

definition times_Integer :: "Integer \<Rightarrow> Integer \<Rightarrow> failure + Integer" where
  "times_Integer a rhs =
     (if isZero a \<or> isZero rhs then Inr Integer_default
      else let rs = (sign a \<noteq> sign rhs);
               n1 = length (digits a); n2 = length (digits rhs)
           in case mul_rows (digits a) (digits rhs) 0 (replicate (n1 + n2) 0) of
                Inl e \<Rightarrow> Inl e
              | Inr tmp \<Rightarrow>
                  let m = trim_length tmp (length tmp);
                      fd = (if 0 < m then map (\<lambda>k. to_DigitType (int (tmp ! k))) [0..<m] else [])
                  in Integer_vec rs fd)"

subsection \<open>Comparison operators\<close>

definition eq_Integer :: "Integer \<Rightarrow> Integer \<Rightarrow> bool" where
  "eq_Integer a rhs =
     (if isZero a \<and> isZero rhs then True
      else if sign a \<noteq> sign rhs then False
      else digits a = digits rhs)"

definition neq_Integer :: "Integer \<Rightarrow> Integer \<Rightarrow> bool" where
  "neq_Integer a rhs = (\<not> eq_Integer a rhs)"

definition less_Integer :: "Integer \<Rightarrow> Integer \<Rightarrow> bool" where
  "less_Integer a rhs =
     (if sign a \<and> \<not> sign rhs then True
      else if \<not> sign a \<and> sign rhs then False
      else if isZero a \<and> isZero rhs then False
      else let cmp = compareMagnitude a rhs
           in if sign a then 0 < cmp else cmp < 0)"

definition greater_Integer :: "Integer \<Rightarrow> Integer \<Rightarrow> bool" where
  "greater_Integer a rhs = less_Integer rhs a"

definition less_eq_Integer :: "Integer \<Rightarrow> Integer \<Rightarrow> bool" where
  "less_eq_Integer a rhs = (\<not> greater_Integer a rhs)"

definition greater_eq_Integer :: "Integer \<Rightarrow> Integer \<Rightarrow> bool" where
  "greater_eq_Integer a rhs = (\<not> less_Integer a rhs)"

text \<open>\<^verbatim>\<open>Integer Integer::abs() const { return sign ? -(*this) : *this; }\<close>\<close>

definition abs_Integer :: "Integer \<Rightarrow> Integer" where
  "abs_Integer i = (if sign i then uminus_Integer i else i)"

section \<open>Rational numbers (Rational.h, Rational.cpp)\<close>

record Rational =
  num :: Integer
  den :: Integer

text \<open>Sequencing of calls that may fail: the first failure ends the computation.\<close>

definition and_then :: "failure + 'a \<Rightarrow> ('a \<Rightarrow> failure + 'b) \<Rightarrow> failure + 'b" where
  "and_then x f = (case x of Inl e \<Rightarrow> Inl e | Inr v \<Rightarrow> f v)"

text \<open>\<^verbatim>\<open>void Rational::normalize()\<close>\<close>

definition normalize_Rational :: "Rational \<Rightarrow> Rational" where
  "normalize_Rational r =
     (let r1 = (if isNegative (den r)
                then \<lparr>num = uminus_Integer (num r), den = uminus_Integer (den r)\<rparr>
                else r)
      in if isZero (num r1) then r1\<lparr>den := Integer_ll 1\<rparr> else r1)"

text \<open>\<^verbatim>\<open>Rational() = default;\<close> with the member initialisers \<open>Integer(0LL)\<close> and \<open>Integer(1LL)\<close>.\<close>

definition Rational_default :: Rational where
  "Rational_default = \<lparr>num = Integer_ll 0, den = Integer_ll 1\<rparr>"

text \<open>
  \<^verbatim>\<open>Rational::Rational(Integer n_param, Integer d_param)\<close>: a zero denominator writes a
  message to \<^verbatim>\<open>std::cerr\<close> and calls \<^verbatim>\<open>exit(EXIT_FAILURE)\<close>.
\<close>

definition Rational_ctor :: "Integer \<Rightarrow> Integer \<Rightarrow> failure + Rational" where
  "Rational_ctor n_param d_param =
     (if isZero d_param
      then Inl (exit_failure ''Error: Rational denominator cannot be zero.'')
      else Inr (normalize_Rational \<lparr>num = n_param, den = d_param\<rparr>))"

text \<open>\<^verbatim>\<open>Rational::Rational(Integer n_param)\<close> and \<^verbatim>\<open>Rational::Rational(long long n)\<close>\<close>

definition Rational_of_Integer :: "Integer \<Rightarrow> Rational" where
  "Rational_of_Integer n_param = normalize_Rational \<lparr>num = n_param, den = Integer_ll 1\<rparr>"

definition Rational_ll :: "64 word \<Rightarrow> Rational" where
  "Rational_ll n = normalize_Rational \<lparr>num = Integer_ll n, den = Integer_ll 1\<rparr>"

text \<open>
  \<^verbatim>\<open>std::ostream &operator<<(std::ostream &os, const Rational &r)\<close>: the text written
  and the state the stream is left in.
\<close>

definition ostream_Rational :: "ios_state \<Rightarrow> Rational \<Rightarrow> string \<times> ios_state" where
  "ostream_Rational st r =
     (let (t1, st1) = ostream_Integer st (num r)
      in if neq_Integer (den r) (Integer_ll 1)
         then (let (t2, st2) = put_string st1 ''/'';
                   (t3, st3) = ostream_Integer st2 (den r)
               in (t1 @ t2 @ t3, st3))
         else (t1, st1))"

text \<open>The operators of \<open>Rational\<close>.\<close>

definition uminus_Rational :: "Rational \<Rightarrow> Rational" where
  "uminus_Rational r = normalize_Rational (r\<lparr>num := uminus_Integer (num r)\<rparr>)"

definition plus_Rational :: "Rational \<Rightarrow> Rational \<Rightarrow> failure + Rational" where
  "plus_Rational a r =
     and_then (times_Integer (num a) (den r)) (\<lambda>p.
     and_then (times_Integer (den a) (num r)) (\<lambda>q.
     and_then (plus_Integer p q) (\<lambda>new_num.
     and_then (times_Integer (den a) (den r)) (\<lambda>new_den.
     Rational_ctor new_num new_den))))"

definition minus_Rational :: "Rational \<Rightarrow> Rational \<Rightarrow> failure + Rational" where
  "minus_Rational a r =
     and_then (times_Integer (num a) (den r)) (\<lambda>p.
     and_then (times_Integer (den a) (num r)) (\<lambda>q.
     and_then (minus_Integer p q) (\<lambda>new_num.
     and_then (times_Integer (den a) (den r)) (\<lambda>new_den.
     Rational_ctor new_num new_den))))"

definition times_Rational :: "Rational \<Rightarrow> Rational \<Rightarrow> failure + Rational" where
  "times_Rational a r =
     and_then (times_Integer (num a) (num r)) (\<lambda>new_num.
     and_then (times_Integer (den a) (den r)) (\<lambda>new_den.
     Rational_ctor new_num new_den))"

definition divide_Rational :: "Rational \<Rightarrow> Rational \<Rightarrow> failure + Rational" where
  "divide_Rational a r =
     (if isZero (num r)
      then Inl (exit_failure ''Error: Division by zero rational number.'')
      else and_then (times_Integer (num a) (den r)) (\<lambda>new_num.
           and_then (times_Integer (den a) (num r)) (\<lambda>new_den.
           Rational_ctor new_num new_den)))"

definition eq_Rational :: "Rational \<Rightarrow> Rational \<Rightarrow> failure + bool" where
  "eq_Rational a r =
     and_then (times_Integer (num a) (den r)) (\<lambda>p.
     and_then (times_Integer (den a) (num r)) (\<lambda>q.
     Inr (eq_Integer p q)))"

section \<open>Values and invariants\<close>

text \<open>The number that a digit sequence stands for, least significant digit first.\<close>

fun digits_value :: "DigitType list \<Rightarrow> nat" where
  "digits_value [] = 0"
| "digits_value (d # ds) = d + BASE * digits_value ds"

definition magnitude :: "Integer \<Rightarrow> nat" where
  "magnitude i = digits_value (digits i)"

text \<open>
  Canonical form: no most-significant zero digit, and the empty sequence has
  \<open>sign = false\<close>. A well-formed \<open>Integer\<close> is canonical with every digit below \<open>BASE\<close>.
\<close>

definition canonical :: "Integer \<Rightarrow> bool" where
  "canonical i = (if digits i = [] then \<not> sign i else last (digits i) \<noteq> 0)"

definition well_formed :: "Integer \<Rightarrow> bool" where
  "well_formed i = (list_all (\<lambda>d. d < BASE) (digits i) \<and> canonical i)"

text \<open>
  The decimal text of an integer: its digits in base ten, most significant first, after a
  minus sign when it is negative.
\<close>

definition decimal_text :: "int \<Rightarrow> string" where
  "decimal_text x = (if x < 0 then CHR ''-'' # decimal (nat (- x)) else decimal (nat x))"

text \<open>
  A text padded with zeros on the left to two characters, and the texts of the digits
  below the most significant one, each padded so.
\<close>

definition two_wide :: "string \<Rightarrow> string" where
  "two_wide s = replicate (2 - length s) CHR ''0'' @ s"

fun low_digits_text :: "DigitType list \<Rightarrow> nat \<Rightarrow> string" where
  "low_digits_text ds 0 = []"
| "low_digits_text ds (Suc j) = two_wide (decimal (ds ! j)) @ low_digits_text ds j"

text \<open>
  The states in which an \<^verbatim>\<open>int\<close> that is not negative is written as its decimal
  digits, padded on the left: a good stream, decimal, without \<open>showpos\<close>, not
  left-adjusted.
\<close>

definition decimal_state :: "ios_state \<Rightarrow> bool" where
  "decimal_state st =
     (good st \<and> base st = base_dec \<and> \<not> showpos st \<and> adjust st \<noteq> adjust_left)"

text \<open>The integer that an \<open>Integer\<close> stands for.\<close>

definition int_of_Integer :: "Integer \<Rightarrow> int" where
  "int_of_Integer i = (if sign i then - int (magnitude i) else int (magnitude i))"

text \<open>
  The \<open>Integer\<close> values that a caller can hold: those that a constructor returns, and
  those that unary minus, addition, subtraction, multiplication and \<open>abs\<close> return on
  such values. The members are private, so there is no other way to make one.
\<close>

inductive exposed :: "Integer \<Rightarrow> bool" where
  exposed_default: "exposed Integer_default"
| exposed_ll: "exposed (Integer_ll i)"
| exposed_array: "Integer_array s n d = Inr r \<Longrightarrow> exposed r"
| exposed_vec: "Integer_vec s d_vec = Inr r \<Longrightarrow> exposed r"
| exposed_uminus: "exposed a \<Longrightarrow> exposed (uminus_Integer a)"
| exposed_plus: "exposed a \<Longrightarrow> exposed b \<Longrightarrow> plus_Integer a b = Inr r \<Longrightarrow> exposed r"
| exposed_minus: "exposed a \<Longrightarrow> exposed b \<Longrightarrow> minus_Integer a b = Inr r \<Longrightarrow> exposed r"
| exposed_times: "exposed a \<Longrightarrow> exposed b \<Longrightarrow> times_Integer a b = Inr r \<Longrightarrow> exposed r"
| exposed_abs: "exposed a \<Longrightarrow> exposed (abs_Integer a)"

code_pred exposed .

section \<open>Decimal output of a native integer\<close>

lemma to_DigitType_small: "x < 256 \<Longrightarrow> to_DigitType (int x) = x"
  by (simp add: to_DigitType_def)

lemma push_digits_Cons: "0 < v \<Longrightarrow> push_digits v = (v mod 100) # push_digits (v div 100)"
proof -
  assume "0 < v"
  have "v mod 100 < 256" by (rule less_trans [OF mod_less_divisor]) simp_all
  then show ?thesis using \<open>0 < v\<close>
    by (subst push_digits.simps) (simp add: BASE_def to_DigitType_small)
qed

lemma push_digits_0: "push_digits 0 = []"
  by (subst push_digits.simps) simp

lemma push_digits_Nil_iff: "push_digits v = [] \<longleftrightarrow> v = 0"
  by (cases "v = 0") (simp_all add: push_digits_0 push_digits_Cons)

lemma decimal_small: "n < 10 \<Longrightarrow> decimal n = [digit_char n]"
  by (subst decimal.simps) simp

lemma decimal_two: "10 \<le> n \<Longrightarrow> n < 100 \<Longrightarrow> decimal n = [digit_char (n div 10), digit_char (n mod 10)]"
  by (subst decimal.simps) (simp add: decimal_small)

lemma mod100_split: "(n::nat) mod 100 = 10 * (n div 10 mod 10) + n mod 10"
  using mod_mult2_eq [of n 10 10] by simp

text \<open>Two decimal digits at a time: the step that the base-100 output relies on.\<close>

lemma decimal_split100:
  assumes "100 \<le> n"
  shows "decimal n = decimal (n div 100) @ two_wide (decimal (n mod 100))"
proof -
  have d1: "decimal n = decimal (n div 10) @ [digit_char (n mod 10)]"
    using assms by (subst decimal.simps) simp
  have "10 \<le> n div 10" using assms by simp
  then have d2: "decimal (n div 10) = decimal (n div 10 div 10) @ [digit_char (n div 10 mod 10)]"
    by (subst decimal.simps) simp
  have e1: "n div 10 div 10 = n div 100" by (simp add: div_mult2_eq)
  have pad: "two_wide (decimal (n mod 100)) = [digit_char (n div 10 mod 10), digit_char (n mod 10)]"
  proof (cases "n mod 100 < 10")
    case True
    then have "n div 10 mod 10 = 0" "n mod 100 = n mod 10" by (simp_all add: mod100_split)
    with True show ?thesis
      by (simp add: decimal_small two_wide_def digit_char_def)
  next
    case False
    then have "10 \<le> n mod 100" "n mod 100 < 100" by simp_all
    moreover have "n mod 100 div 10 = n div 10 mod 10" "n mod 100 mod 10 = n mod 10"
      by (simp_all add: mod100_split)
    ultimately show ?thesis
      by (simp add: decimal_two two_wide_def)
  qed
  show ?thesis by (simp add: d1 d2 e1 pad)
qed

lemma low_digits_text_Cons:
  "low_digits_text (x # ds) (Suc n) = low_digits_text ds n @ two_wide (decimal x)"
  by (induction n) simp_all

lemma write_digits_Cons:
  assumes "ds \<noteq> []"
  shows "decimal (last (x # ds)) @ low_digits_text (x # ds) (length (x # ds) - 1)
       = (decimal (last ds) @ low_digits_text ds (length ds - 1)) @ two_wide (decimal x)"
proof -
  obtain n where n: "length ds = Suc n"
    using assms by (cases ds) simp_all
  have "low_digits_text (x # ds) (length (x # ds) - 1) = low_digits_text (x # ds) (Suc n)"
    by (simp add: n)
  also have "\<dots> = low_digits_text ds n @ two_wide (decimal x)"
    by (rule low_digits_text_Cons)
  finally show ?thesis using assms by (simp add: n)
qed

lemma write_push_digits:
  "0 < v \<Longrightarrow>
   decimal (last (push_digits v)) @ low_digits_text (push_digits v) (length (push_digits v) - 1)
   = decimal v"
proof (induction v rule: less_induct)
  case (less v)
  show ?case
  proof (cases "v < 100")
    case True
    with less.prems show ?thesis
      by (simp add: push_digits_Cons push_digits_0)
  next
    case False
    then have pos: "0 < v div 100" by simp
    then have ne: "push_digits (v div 100) \<noteq> []" by (simp add: push_digits_Nil_iff)
    have lt: "v div 100 < v" using less.prems by simp
    have cons: "push_digits v = (v mod 100) # push_digits (v div 100)"
      using less.prems by (rule push_digits_Cons)
    show ?thesis
      unfolding cons write_digits_Cons [OF ne] less.IH [OF lt pos]
      using False by (simp add: decimal_split100)
  qed
qed

text \<open>The magnitude that the constructor from \<^verbatim>\<open>long long\<close> decomposes.\<close>

lemma unat_word_of_int_64:
  "0 \<le> k \<Longrightarrow> k < 2 ^ 64 \<Longrightarrow> unat (word_of_int k :: 64 word) = nat k"
  by (simp add: unat_eq_nat_uint uint_word_of_int take_bit_eq_mod)

lemma sint_LLONG_MIN: "sint LLONG_MIN = - (2 ^ 63)"
  by (simp add: LLONG_MIN_def)

lemma unat_LLONG_MAX_plus_1: "unat (LLONG_MAX + 1) = 2 ^ 63"
  by (simp add: LLONG_MAX_def)

lemma sint_eq_min_imp:
  assumes "sint (i :: 64 word) = - (2 ^ 63)"
  shows "i = LLONG_MIN"
proof -
  have "i = word_of_int (sint i)" by simp
  also have "\<dots> = word_of_int (- (2 ^ 63))" by (simp only: assms)
  also have "\<dots> = LLONG_MIN" by (simp add: LLONG_MIN_def)
  finally show ?thesis .
qed

lemma ll_magnitude:
  fixes i :: "64 word"
  shows "unat (if i = LLONG_MIN then LLONG_MAX + 1 else if i <s 0 then - i else i) = nat \<bar>sint i\<bar>"
proof -
  have lo: "- (2 ^ 63) \<le> sint i" using sint_ge [of i] by simp
  have hi: "sint i < 2 ^ 63" using sint_lt [of i] by simp
  show ?thesis
  proof (cases "i = LLONG_MIN")
    case True
    then show ?thesis by (simp add: unat_LLONG_MAX_plus_1 sint_LLONG_MIN)
  next
    case False
    then have ne: "sint i \<noteq> - (2 ^ 63)" using sint_eq_min_imp [of i] by blast
    show ?thesis
    proof (cases "i <s 0")
      case True
      then have neg: "sint i < 0" by (simp add: word_sless_alt)
      have "- i = word_of_int (- sint i)" by simp
      then have "unat (- i) = nat (- sint i)"
        using unat_word_of_int_64 [of "- sint i"] neg lo by simp
      with False True neg show ?thesis by simp
    next
      case nonneg: False
      then have ge: "0 \<le> sint i" by (simp add: word_sless_alt)
      have "i = word_of_int (sint i)" by simp
      then have "unat i = nat (sint i)"
        using unat_word_of_int_64 [of "sint i"] ge hi by simp
      with False nonneg ge show ?thesis by simp
    qed
  qed
qed

lemma Integer_ll_eq:
  "Integer_ll i = \<lparr>sign = sint i < 0, digits = push_digits (nat \<bar>sint i\<bar>)\<rparr>"
proof (cases "i = 0")
  case True
  then show ?thesis by (simp add: Integer_ll_def push_digits_0)
next
  case False
  then show ?thesis
    by (simp add: Integer_ll_def Let_def word_sless_alt ll_magnitude del: abs_if)
qed

subsection \<open>The output operator in a decimal state\<close>

lemma pad_width_0: "width st = 0 \<Longrightarrow> pad st pre body = pre @ body"
  by (cases "adjust st") (simp_all add: pad_def)

lemma pad_two_wide:
  "adjust st \<noteq> adjust_left \<Longrightarrow>
   pad (st\<lparr>width := 2, fill := CHR ''0''\<rparr>) [] body = two_wide body"
  by (cases "adjust st") (simp_all add: pad_def two_wide_def)

lemma int_text_decimal:
  "decimal_state st \<Longrightarrow> int_text st (int n) = ([], decimal n)"
  by (simp add: int_text_def decimal_state_def)

lemma decimal_state_update [simp]:
  "decimal_state (st\<lparr>width := w\<rparr>) = decimal_state st"
  "decimal_state (st\<lparr>fill := c\<rparr>) = decimal_state st"
  by (simp_all add: decimal_state_def)

lemma put_string_width_0:
  "good st \<Longrightarrow> width st = 0 \<Longrightarrow> put_string st s = (s, st)"
  by (simp add: put_string_def pad_width_0)

lemma put_int_width_0:
  assumes "decimal_state st" "width st = 0"
  shows "put_int st (int n) = (decimal n, st)"
proof -
  have "good st" using assms(1) by (simp add: decimal_state_def)
  then show ?thesis
    using assms by (simp add: put_int_def int_text_decimal pad_width_0)
qed

lemma put_int_two_wide:
  assumes "decimal_state st"
  shows "put_int (st\<lparr>width := 2, fill := CHR ''0''\<rparr>) (int n)
           = (two_wide (decimal n), st\<lparr>width := 0, fill := CHR ''0''\<rparr>)"
proof -
  have g: "good st" and a: "adjust st \<noteq> adjust_left"
    using assms by (simp_all add: decimal_state_def)
  have d: "decimal_state (st\<lparr>width := 2, fill := CHR ''0''\<rparr>)" using assms by simp
  show ?thesis
    using g by (simp add: put_int_def int_text_decimal [OF d] pad_two_wide [OF a])
qed

lemma write_low_digits_decimal:
  "decimal_state st \<Longrightarrow> fst (write_low_digits st ds n) = low_digits_text ds n"
proof (induction n arbitrary: st)
  case 0
  show ?case by simp
next
  case (Suc n)
  have "decimal_state (st\<lparr>width := 0, fill := CHR ''0''\<rparr>)" using Suc.prems by simp
  from Suc.IH [OF this] show ?case
    by (simp add: put_int_two_wide [OF Suc.prems] split_beta)
qed

text \<open>
  In a decimal state with width 0 the text written is the sign, the most significant
  digit and the lower digits two characters wide, whatever the fill character is.
\<close>

lemma ostream_Integer_decimal:
  assumes "decimal_state st" "width st = 0"
  shows "fst (ostream_Integer st i) =
           (if isZero i then ''0''
            else (if sign i then ''-'' else [])
                 @ decimal (last (digits i))
                 @ low_digits_text (digits i) (length (digits i) - 1))"
proof -
  have g: "good st" using assms(1) by (simp add: decimal_state_def)
  show ?thesis
    by (simp add: ostream_Integer_def put_string_width_0 [OF g assms(2)]
        put_int_width_0 [OF assms] write_low_digits_decimal [OF assms(1)] split_beta)
qed

text \<open>
  For every \<^verbatim>\<open>long long\<close> value, the minimum included, the text written into a stream
  in a decimal state with width 0 (a stream as constructed is one) is the decimal text of
  the value.
\<close>

lemma ostream_Integer_ll_decimal:
  assumes "decimal_state st" "width st = 0"
  shows "fst (ostream_Integer st (Integer_ll i)) = decimal_text (sint i)"
proof (cases "sint i = 0")
  case True
  then show ?thesis
    by (simp add: ostream_Integer_decimal [OF assms] Integer_ll_eq isZero_def push_digits_0
        decimal_text_def decimal_small digit_char_def)
next
  case False
  then have pos: "0 < nat \<bar>sint i\<bar>" by simp
  have "fst (ostream_Integer st (Integer_ll i))
      = (if sint i < 0 then ''-'' else []) @ decimal (nat \<bar>sint i\<bar>)"
    using pos write_push_digits [OF pos]
    by (simp add: ostream_Integer_decimal [OF assms] Integer_ll_eq isZero_def push_digits_Nil_iff
        del: abs_if)
  also have "\<dots> = decimal_text (sint i)"
    by (simp add: decimal_text_def)
  finally show ?thesis .
qed

lemma decimal_state_default: "decimal_state default_ios \<and> width default_ios = 0"
  by (simp add: decimal_state_def default_ios_def)

text \<open>
  C5, at \<open>Integer(255LL)\<close> written into a stream on which the caller has set
  \<^verbatim>\<open>std::hex\<close>: the text is \<open>237\<close>, the base-100 groups 2 and 55 each converted in
  the stream's base, and not the decimal text \<open>255\<close>. The operator sets the width and
  the fill character but not the base, although the header documents it as writing the
  integer in decimal, with no precondition. In a stream as constructed the text is
  \<open>255\<close>.
\<close>

theorem ostream_Integer_in_hex:
  "fst (ostream_Integer (default_ios\<lparr>base := base_hex\<rparr>) (Integer_ll 255)) = ''237''
   \<and> decimal_text (sint (255 :: 64 word)) = ''255''
   \<and> fst (ostream_Integer default_ios (Integer_ll 255)) = ''255''"
  by code_simp

section \<open>Digit sequences and their values\<close>

lemma digits_value_append:
  "digits_value (xs @ ys) = digits_value xs + BASE ^ length xs * digits_value ys"
  by (induction xs) (simp_all add: algebra_simps)

lemma digits_value_snoc: "digits_value (xs @ [d]) = digits_value xs + BASE ^ length xs * d"
  by (simp add: digits_value_append)

lemma digits_value_bound:
  "list_all (\<lambda>d. d < BASE) ds \<Longrightarrow> digits_value ds < BASE ^ length ds"
proof (induction ds)
  case Nil
  then show ?case by simp
next
  case (Cons d ds)
  then have d: "d < BASE" and "digits_value ds < BASE ^ length ds" by simp_all
  then have "Suc (digits_value ds) \<le> BASE ^ length ds" by simp
  then have "BASE * Suc (digits_value ds) \<le> BASE * BASE ^ length ds"
    by (rule mult_le_mono2)
  moreover have "d + BASE * digits_value ds < BASE * Suc (digits_value ds)"
    using d by simp
  ultimately show ?case by simp
qed

lemma digits_value_drop:
  "digits_value (drop i ds) = (if i < length ds then ds ! i else 0) + BASE * digits_value (drop (Suc i) ds)"
proof (cases "i < length ds")
  case True
  then have "drop i ds = ds ! i # drop (Suc i) ds" by (simp add: Cons_nth_drop_Suc)
  with True show ?thesis by simp
next
  case False
  then show ?thesis by simp
qed

lemma digits_value_take_Suc:
  "k < length ds \<Longrightarrow> digits_value (take (Suc k) ds) = digits_value (take k ds) + BASE ^ k * ds ! k"
  by (simp add: take_Suc_conv_app_nth digits_value_snoc)

lemma digits_value_update:
  "k < length ds \<Longrightarrow>
   digits_value (ds[k := x]) + BASE ^ k * ds ! k = digits_value ds + BASE ^ k * x"
proof (induction ds arbitrary: k)
  case Nil
  then show ?case by simp
next
  case (Cons d ds)
  show ?case
  proof (cases k)
    case 0
    then show ?thesis by simp
  next
    case (Suc j)
    with Cons.prems have "j < length ds" by simp
    from Cons.IH [OF this]
    have "BASE * (digits_value (ds[j := x]) + BASE ^ j * ds ! j) = BASE * (digits_value ds + BASE ^ j * x)"
      by simp
    with Suc show ?thesis by (simp add: algebra_simps)
  qed
qed

lemma digits_value_last_pos:
  assumes "ds \<noteq> []" "last ds \<noteq> 0"
  shows "BASE ^ (length ds - 1) \<le> digits_value ds"
proof -
  have ds: "ds = butlast ds @ [last ds]" using assms(1) by simp
  obtain n where n: "last ds = Suc n" using assms(2) by (cases "last ds") simp_all
  have "BASE ^ length (butlast ds) \<le> digits_value (butlast ds @ [last ds])"
    by (simp add: digits_value_snoc n)
  with ds show ?thesis by simp
qed

lemma digits_value_0_iff: "digits_value ds = 0 \<longleftrightarrow> list_all (\<lambda>d. d = 0) ds"
  by (induction ds) (simp_all add: BASE_def)

subsection \<open>normalize\<close>

lemma pop_zeros_step: "1 < length ds \<Longrightarrow> last ds = 0 \<Longrightarrow> pop_zeros ds = pop_zeros (butlast ds)"
  by (subst pop_zeros.simps) simp

lemma pop_zeros_stop: "\<not> (1 < length ds \<and> last ds = 0) \<Longrightarrow> pop_zeros ds = ds"
  by (subst pop_zeros.simps) auto

lemma pop_zeros_value: "digits_value (pop_zeros ds) = digits_value ds"
proof (induction ds rule: pop_zeros.induct)
  case (1 ds)
  show ?case
  proof (cases "1 < length ds \<and> last ds = 0")
    case True
    then have ne: "ds \<noteq> []" by auto
    have "digits_value (butlast ds @ [last ds]) = digits_value (butlast ds)"
      using True by (simp add: digits_value_snoc)
    then have "digits_value ds = digits_value (butlast ds)" using ne by simp
    with True 1 [OF True] show ?thesis by (simp add: pop_zeros_step)
  next
    case False
    then show ?thesis by (simp add: pop_zeros_stop)
  qed
qed

lemma pop_zeros_all: "list_all P ds \<Longrightarrow> list_all P (pop_zeros ds)"
proof (induction ds rule: pop_zeros.induct)
  case (1 ds)
  show ?case
  proof (cases "1 < length ds \<and> last ds = 0")
    case True
    have "list_all P (butlast ds)"
      using "1.prems" by (auto simp: list_all_iff dest: in_set_butlastD)
    with True "1.IH" [OF True] show ?thesis by (simp add: pop_zeros_step)
  next
    case False
    with "1.prems" show ?thesis by (simp add: pop_zeros_stop)
  qed
qed

lemma pop_zeros_last:
  "pop_zeros ds = [] \<or> length (pop_zeros ds) = 1 \<or> last (pop_zeros ds) \<noteq> 0"
proof (induction ds rule: pop_zeros.induct)
  case (1 ds)
  show ?case
  proof (cases "1 < length ds \<and> last ds = 0")
    case True
    with 1 [OF True] show ?thesis by (simp add: pop_zeros_step)
  next
    case False
    then have "pop_zeros ds = ds" by (rule pop_zeros_stop)
    with False show ?thesis by (cases ds) auto
  qed
qed

lemma pop_zeros_id: "ds = [] \<or> last ds \<noteq> 0 \<Longrightarrow> pop_zeros ds = ds"
  by (rule pop_zeros_stop) auto

lemma normalize_Integer_magnitude: "magnitude (normalize_Integer i) = magnitude i"
proof -
  have "digits_value (pop_zeros (digits i)) = digits_value (digits i)"
    by (rule pop_zeros_value)
  moreover have "length (pop_zeros (digits i)) = 1 \<and> pop_zeros (digits i) ! 0 = 0
      \<Longrightarrow> digits_value (pop_zeros (digits i)) = 0"
    by (cases "pop_zeros (digits i)") simp_all
  ultimately show ?thesis
    by (auto simp: normalize_Integer_def magnitude_def Let_def)
qed

lemma normalize_Integer_well_formed:
  assumes "list_all (\<lambda>d. d < BASE) (digits i)"
  shows "well_formed (normalize_Integer i)"
proof -
  let ?ds = "pop_zeros (digits i)"
  have all: "list_all (\<lambda>d. d < BASE) ?ds" using assms by (rule pop_zeros_all)
  have "?ds = [] \<or> length ?ds = 1 \<or> last ?ds \<noteq> 0" by (rule pop_zeros_last)
  moreover have "length ?ds = 1 \<Longrightarrow> last ?ds = ?ds ! 0"
    by (cases ?ds) simp_all
  ultimately show ?thesis using all
    by (auto simp: normalize_Integer_def well_formed_def canonical_def Let_def)
qed

lemma well_formed_zero_iff: "well_formed i \<Longrightarrow> magnitude i = 0 \<longleftrightarrow> digits i = []"
proof
  assume wf: "well_formed i" and z: "magnitude i = 0"
  show "digits i = []"
  proof (rule ccontr)
    assume ne: "digits i \<noteq> []"
    with wf have "last (digits i) \<noteq> 0" by (simp add: well_formed_def canonical_def)
    from digits_value_last_pos [OF ne this] z show False
      by (simp add: magnitude_def BASE_def)
  qed
next
  assume "digits i = []" then show "magnitude i = 0" by (simp add: magnitude_def)
qed

lemma normalize_Integer_sign:
  assumes "list_all (\<lambda>d. d < BASE) (digits i)"
  shows "sign (normalize_Integer i) = (sign i \<and> magnitude i \<noteq> 0)"
proof -
  have wf: "well_formed (normalize_Integer i)" using assms by (rule normalize_Integer_well_formed)
  have z: "magnitude i = 0 \<longleftrightarrow> digits (normalize_Integer i) = []"
    using well_formed_zero_iff [OF wf] by (simp add: normalize_Integer_magnitude)
  show ?thesis
  proof (cases "digits (normalize_Integer i) = []")
    case True
    with wf z show ?thesis by (simp add: well_formed_def canonical_def)
  next
    case False
    with z have "magnitude i \<noteq> 0" by simp
    moreover from False have "sign (normalize_Integer i) = sign i"
      by (auto simp: normalize_Integer_def Let_def split: if_splits)
    ultimately show ?thesis by simp
  qed
qed

lemma normalize_Integer_id:
  assumes "well_formed i"
  shows "normalize_Integer i = i"
proof -
  have c: "canonical i" using assms by (simp add: well_formed_def)
  then have p: "pop_zeros (digits i) = digits i"
    by (intro pop_zeros_id) (auto simp: canonical_def split: if_splits)
  have "length (digits i) = 1 \<Longrightarrow> digits i ! 0 \<noteq> 0"
    using c by (cases "digits i") (auto simp: canonical_def)
  with c show ?thesis
    by (auto simp: normalize_Integer_def p Let_def canonical_def split: if_splits)
qed

lemma Integer_vec_ok:
  assumes "list_all (\<lambda>d. d < BASE) ds"
  shows "Integer_vec s ds = Inr (normalize_Integer \<lparr>sign = s, digits = ds\<rparr>)"
proof -
  have "\<not> list_ex (\<lambda>dig. BASE \<le> dig) ds"
    using assms by (auto simp: list_all_iff list_ex_iff)
  then show ?thesis by (simp add: Integer_vec_def)
qed

section \<open>Magnitude comparison, addition and subtraction\<close>

lemma radix_less_step:
  fixes a1 a2 A x y :: nat
  assumes "a1 < A" "x < y"
  shows "a1 + A * x < a2 + A * y"
proof -
  have "Suc x \<le> y" using assms(2) by simp
  then have "A * Suc x \<le> A * y" by (rule mult_le_mono2)
  moreover have "a1 + A * x < A * Suc x" using assms(1) by simp
  ultimately show ?thesis by linarith
qed

lemma list_all_take: "list_all P ds \<Longrightarrow> list_all P (take k ds)"
  by (auto simp: list_all_iff dest: in_set_takeD)

lemma compare_digits_take:
  assumes "k \<le> length d1" "k \<le> length d2"
    and "list_all (\<lambda>d. d < BASE) d1" "list_all (\<lambda>d. d < BASE) d2"
  shows "compare_digits d1 d2 k =
           (if digits_value (take k d1) < digits_value (take k d2) then - 1
            else if digits_value (take k d2) < digits_value (take k d1) then 1 else 0)
         \<and> (compare_digits d1 d2 k = 0 \<longrightarrow> take k d1 = take k d2)"
  using assms(1,2)
proof (induction k)
  case 0
  then show ?case by simp
next
  case (Suc k)
  then have k1: "k < length d1" and k2: "k < length d2" by simp_all
  have kk: "k \<le> length d1" "k \<le> length d2" using k1 k2 by simp_all
  note IH = Suc.IH [OF kk, THEN conjunct1]
  note IH0 = Suc.IH [OF kk, THEN conjunct2]
  have b1: "digits_value (take k d1) < BASE ^ k"
    using digits_value_bound [OF list_all_take [OF assms(3)], of k] k1 by simp
  have b2: "digits_value (take k d2) < BASE ^ k"
    using digits_value_bound [OF list_all_take [OF assms(4)], of k] k2 by simp
  note v1 = digits_value_take_Suc [OF k1]
  note v2 = digits_value_take_Suc [OF k2]
  note t1 = take_Suc_conv_app_nth [OF k1]
  note t2 = take_Suc_conv_app_nth [OF k2]
  consider (lt) "d1 ! k < d2 ! k" | (gt) "d2 ! k < d1 ! k" | (eq) "d1 ! k = d2 ! k"
    by linarith
  then show ?case
  proof cases
    case lt
    from radix_less_step [OF b1 lt]
    have "digits_value (take (Suc k) d1) < digits_value (take (Suc k) d2)"
      by (simp add: v1 v2)
    with lt show ?thesis by simp
  next
    case gt
    from radix_less_step [OF b2 gt]
    have "digits_value (take (Suc k) d2) < digits_value (take (Suc k) d1)"
      by (simp add: v1 v2)
    with gt show ?thesis by simp
  next
    case eq
    then have c: "compare_digits d1 d2 (Suc k) = compare_digits d1 d2 k" by simp
    have lt: "digits_value (take (Suc k) d1) < digits_value (take (Suc k) d2)
        \<longleftrightarrow> digits_value (take k d1) < digits_value (take k d2)"
      by (simp add: v1 v2 eq)
    have gt: "digits_value (take (Suc k) d2) < digits_value (take (Suc k) d1)
        \<longleftrightarrow> digits_value (take k d2) < digits_value (take k d1)"
      by (simp add: v1 v2 eq)
    have e: "take k d1 = take k d2 \<Longrightarrow> take (Suc k) d1 = take (Suc k) d2"
      by (simp add: t1 t2 eq)
    show ?thesis
      unfolding c lt gt
    proof (intro conjI impI)
      show "compare_digits d1 d2 k =
           (if digits_value (take k d1) < digits_value (take k d2) then - 1
            else if digits_value (take k d2) < digits_value (take k d1) then 1 else 0)"
        by (rule IH)
      assume "compare_digits d1 d2 k = 0"
      with IH0 have "take k d1 = take k d2" by blast
      then show "take (Suc k) d1 = take (Suc k) d2" by (rule e)
    qed
  qed
qed

lemma shorter_less:
  assumes "well_formed a" "well_formed b" "length (digits a) < length (digits b)"
  shows "magnitude a < magnitude b"
proof -
  have ne: "digits b \<noteq> []" using assms(3) by auto
  with assms(2) have "last (digits b) \<noteq> 0" by (simp add: well_formed_def canonical_def)
  from digits_value_last_pos [OF ne this]
  have lo: "BASE ^ (length (digits b) - 1) \<le> magnitude b" by (simp add: magnitude_def)
  have "magnitude a < BASE ^ length (digits a)"
    using assms(1) by (simp add: magnitude_def well_formed_def digits_value_bound)
  also have "\<dots> \<le> BASE ^ (length (digits b) - 1)"
    using assms(3) by (intro power_increasing) (simp_all add: BASE_def)
  finally show ?thesis using lo by simp
qed

lemma compareMagnitude_correct:
  assumes "well_formed a" "well_formed b"
  shows "compareMagnitude a b =
           (if magnitude a < magnitude b then - 1
            else if magnitude b < magnitude a then 1 else 0)"
proof -
  consider (shorter) "length (digits a) < length (digits b)"
    | (longer) "length (digits b) < length (digits a)"
    | (same) "length (digits a) = length (digits b)"
    by linarith
  then show ?thesis
  proof cases
    case shorter
    with shorter_less [OF assms shorter] show ?thesis by (simp add: compareMagnitude_def)
  next
    case longer
    with shorter_less [OF assms(2,1) longer] show ?thesis by (simp add: compareMagnitude_def)
  next
    case same
    have "compare_digits (digits a) (digits b) (length (digits a)) =
           (if magnitude a < magnitude b then - 1
            else if magnitude b < magnitude a then 1 else 0)"
      using compare_digits_take [of "length (digits a)" "digits a" "digits b"] assms same
      by (simp add: well_formed_def magnitude_def)
    with same show ?thesis by (auto simp: compareMagnitude_def magnitude_def)
  qed
qed

lemma well_formed_digits_eqI:
  assumes "well_formed a" "well_formed b" "magnitude a = magnitude b"
  shows "digits a = digits b"
proof -
  have "\<not> length (digits a) < length (digits b)"
    using shorter_less [OF assms(1,2)] assms(3) by auto
  moreover have "\<not> length (digits b) < length (digits a)"
    using shorter_less [OF assms(2,1)] assms(3) by auto
  ultimately have len: "length (digits a) = length (digits b)" by simp
  have "compare_digits (digits a) (digits b) (length (digits a)) = 0"
    using compare_digits_take [of "length (digits a)" "digits a" "digits b"] assms len
    by (simp add: well_formed_def magnitude_def)
  then show ?thesis
    using compare_digits_take [of "length (digits a)" "digits a" "digits b"] assms(1,2) len
    by (simp add: well_formed_def)
qed

subsection \<open>addMagnitude\<close>

lemma digit_at_bound:
  "list_all (\<lambda>d. d < BASE) ds \<Longrightarrow> (if i < length ds then ds ! i else 0) < BASE"
  by (simp add: list_all_length BASE_def)

lemma add_loop_correct:
  assumes "length res = i" "i \<le> m" "carry \<le> 1" "length d1 \<le> m" "length d2 \<le> m"
    and "list_all (\<lambda>d. d < BASE) d1" "list_all (\<lambda>d. d < BASE) d2" "list_all (\<lambda>d. d < BASE) res"
  shows "\<exists>r c. add_loop d1 d2 m i carry res = (r, c) \<and> length r = m \<and> c \<le> 1
           \<and> list_all (\<lambda>d. d < BASE) r
           \<and> digits_value r + BASE ^ m * c
             = digits_value res + BASE ^ i * (carry + digits_value (drop i d1) + digits_value (drop i d2))"
  using assms
proof (induction d1 d2 m i carry res rule: add_loop.induct)
  case (1 d1 d2 m i carry res)
  show ?case
  proof (cases "i < m")
    case False
    with "1.prems" have "i = m" by simp
    with "1.prems" show ?thesis by (subst add_loop.simps) simp
  next
    case True
    define x1 where "x1 = (if i < length d1 then d1 ! i else 0)"
    define x2 where "x2 = (if i < length d2 then d2 ! i else 0)"
    define S where "S = carry + x1 + x2"
    have x1: "x1 < BASE" unfolding x1_def using "1.prems"(6) by (rule digit_at_bound)
    have x2: "x2 < BASE" unfolding x2_def using "1.prems"(7) by (rule digit_at_bound)
    have S: "S < 2 * BASE" using x1 x2 "1.prems"(3) by (simp add: S_def)
    then have c': "S div BASE \<le> 1" by (simp add: BASE_def)
    have sm: "S mod BASE < BASE" by (simp add: BASE_def)
    then have "S mod BASE < 256" by (simp add: BASE_def)
    then have dg: "to_DigitType (int (S mod BASE)) = S mod BASE"
      by (rule to_DigitType_small)
    have step: "add_loop d1 d2 m i carry res
        = add_loop d1 d2 m (i + 1) (S div BASE) (res @ [S mod BASE])"
      using True by (subst add_loop.simps) (simp add: Let_def S_def x1_def x2_def dg [unfolded S_def x1_def x2_def])
    have res': "list_all (\<lambda>d. d < BASE) (res @ [to_DigitType (int (S mod BASE))])"
      using "1.prems"(8) sm by (simp add: dg)
    from "1.IH" [OF True S_def [unfolded x1_def x2_def] _ _ c' "1.prems"(4,5,6,7) res']
    obtain r c where rc: "add_loop d1 d2 m (i + 1) (S div BASE) (res @ [S mod BASE]) = (r, c)"
      and len: "length r = m" and c: "c \<le> 1" and all: "list_all (\<lambda>d. d < BASE) r"
      and val: "digits_value r + BASE ^ m * c
             = digits_value (res @ [S mod BASE])
               + BASE ^ (i + 1) * (S div BASE + digits_value (drop (i + 1) d1) + digits_value (drop (i + 1) d2))"
      using True "1.prems"(1) by (auto simp: dg)
    have D1: "digits_value (drop i d1) = x1 + BASE * digits_value (drop (Suc i) d1)"
      unfolding x1_def by (rule digits_value_drop)
    have D2: "digits_value (drop i d2) = x2 + BASE * digits_value (drop (Suc i) d2)"
      unfolding x2_def by (rule digits_value_drop)
    have "BASE ^ i * (S mod BASE + BASE * (S div BASE)) = BASE ^ i * S" by simp
    then have "BASE ^ i * (S mod BASE) + BASE ^ (i + 1) * (S div BASE) = BASE ^ i * S"
      by (simp only: distrib_left power_add power_one_right mult.assoc)
    then have "digits_value (res @ [S mod BASE])
               + BASE ^ (i + 1) * (S div BASE + digits_value (drop (i + 1) d1) + digits_value (drop (i + 1) d2))
          = digits_value res + BASE ^ i * (carry + digits_value (drop i d1) + digits_value (drop i d2))"
      using "1.prems"(1) by (simp add: digits_value_snoc D1 D2 S_def algebra_simps)
    with rc len c all val step show ?thesis by simp
  qed
qed

lemma addMagnitude_correct:
  assumes "well_formed a" "well_formed b"
  shows "\<exists>r. addMagnitude a b = Inr r \<and> well_formed r \<and> \<not> sign r
           \<and> magnitude r = magnitude a + magnitude b"
proof -
  let ?m = "max (length (digits a)) (length (digits b))"
  have da: "list_all (\<lambda>d. d < BASE) (digits a)" and db: "list_all (\<lambda>d. d < BASE) (digits b)"
    using assms by (simp_all add: well_formed_def)
  from add_loop_correct [of "[]" 0 ?m 0 "digits a" "digits b"] da db
  obtain r c where rc: "add_loop (digits a) (digits b) ?m 0 0 [] = (r, c)"
    and len: "length r = ?m" and c: "c \<le> 1" and all: "list_all (\<lambda>d. d < BASE) r"
    and val: "digits_value r + BASE ^ ?m * c = magnitude a + magnitude b"
    by (auto simp: magnitude_def)
  define res' where "res' = (if 0 < c then r @ [to_DigitType (int c)] else r)"
  have cd: "to_DigitType (int c) = c" using c by (intro to_DigitType_small) simp
  have all': "list_all (\<lambda>d. d < BASE) res'"
    using all c by (simp add: res'_def cd BASE_def)
  have val': "digits_value res' = magnitude a + magnitude b"
    using val len by (auto simp: res'_def cd digits_value_snoc)
  let ?n = "normalize_Integer \<lparr>sign = False, digits = res'\<rparr>"
  have wf: "well_formed ?n" using all' by (intro normalize_Integer_well_formed) simp
  have "addMagnitude a b = Inr (normalize_Integer ?n)"
    using rc by (simp add: addMagnitude_def Let_def res'_def Integer_vec_ok [OF all', unfolded res'_def])
  then have "addMagnitude a b = Inr ?n" by (simp add: normalize_Integer_id [OF wf])
  moreover have "magnitude ?n = magnitude a + magnitude b"
    by (simp add: normalize_Integer_magnitude) (simp add: magnitude_def val')
  moreover have "\<not> sign ?n" using all' by (simp add: normalize_Integer_sign)
  ultimately show ?thesis using wf by blast
qed

subsection \<open>subtractMagnitude\<close>

lemma to_DigitType_nat: "0 \<le> x \<Longrightarrow> x < 256 \<Longrightarrow> to_DigitType x = nat x"
  by (simp add: to_DigitType_def)

lemma sub_loop_correct:
  assumes "length res = i" "i \<le> length d1" "length d2 \<le> length d1" "borrow = 0 \<or> borrow = 1"
    and "list_all (\<lambda>d. d < BASE) d1" "list_all (\<lambda>d. d < BASE) d2" "list_all (\<lambda>d. d < BASE) res"
  shows "\<exists>r bw. sub_loop d1 d2 i borrow res = (r, bw) \<and> length r = length d1
           \<and> (bw = 0 \<or> bw = 1) \<and> list_all (\<lambda>d. d < BASE) r
           \<and> int (digits_value r) - int BASE ^ length d1 * bw
             = int (digits_value res)
               + int BASE ^ i * (int (digits_value (drop i d1)) - int (digits_value (drop i d2)) - borrow)"
  using assms
proof (induction d1 d2 i borrow res rule: sub_loop.induct)
  case (1 d1 d2 i borrow res)
  show ?case
  proof (cases "i < length d1")
    case False
    with "1.prems" have "i = length d1" by simp
    with "1.prems" show ?thesis by (subst sub_loop.simps) simp
  next
    case True
    define x where "x = d1 ! i"
    define y where "y = (if i < length d2 then d2 ! i else 0)"
    define diff where "diff = int (d1 ! i) - borrow - (if i < length d2 then int (d2 ! i) else 0)"
    have x: "x < BASE" using "1.prems"(5) True by (simp add: x_def list_all_length)
    have y: "y < BASE" unfolding y_def using "1.prems"(6) by (rule digit_at_bound)
    have diff: "diff = int x - borrow - int y" by (simp add: diff_def x_def y_def)
    have D1: "int (digits_value (drop i d1)) = int x + int BASE * int (digits_value (drop (Suc i) d1))"
      using digits_value_drop [of i d1] True by (simp add: x_def)
    have D2: "int (digits_value (drop i d2)) = int y + int BASE * int (digits_value (drop (Suc i) d2))"
      using digits_value_drop [of i d2] by (simp add: y_def)
    have i1: "i + 1 \<le> length d1" using True by simp
    show ?thesis
    proof (cases "diff < 0")
      case neg: True
      have lo: "0 \<le> diff + int BASE" and hi: "diff + int BASE < int BASE"
        using x y "1.prems"(4) neg by (auto simp: diff)
      then have dg: "to_DigitType (diff + int BASE) = nat (diff + int BASE)"
        by (intro to_DigitType_nat) (simp_all add: BASE_def)
      have dlt: "nat (diff + int BASE) < BASE" using lo hi by simp
      have step: "sub_loop d1 d2 i borrow res
          = sub_loop d1 d2 (i + 1) 1 (res @ [nat (diff + int BASE)])"
        using True neg by (subst sub_loop.simps) (simp add: Let_def dg [unfolded diff_def] diff_def)
      have res': "list_all (\<lambda>d. d < BASE) (res @ [to_DigitType (diff + int BASE)])"
        using "1.prems"(7) dlt by (simp add: dg)
      have len': "length (res @ [to_DigitType (diff + int BASE)]) = i + 1"
        using "1.prems"(1) by simp
      from "1.IH"(1) [OF True diff_def neg len' i1 "1.prems"(3) _ "1.prems"(5,6) res']
      obtain r bw where rb: "sub_loop d1 d2 (i + 1) 1 (res @ [nat (diff + int BASE)]) = (r, bw)"
        and len: "length r = length d1" and bw: "bw = 0 \<or> bw = 1"
        and all: "list_all (\<lambda>d. d < BASE) r"
        and val: "int (digits_value r) - int BASE ^ length d1 * bw
             = int (digits_value (res @ [nat (diff + int BASE)]))
               + int BASE ^ (i + 1) * (int (digits_value (drop (i + 1) d1))
                                       - int (digits_value (drop (i + 1) d2)) - 1)"
        by (auto simp: dg)
      have "int (digits_value (res @ [nat (diff + int BASE)]))
               + int BASE ^ (i + 1) * (int (digits_value (drop (i + 1) d1))
                                       - int (digits_value (drop (i + 1) d2)) - 1)
          = int (digits_value res)
               + int BASE ^ i * (int (digits_value (drop i d1)) - int (digits_value (drop i d2)) - borrow)"
        using "1.prems"(1) lo by (simp add: digits_value_snoc D1 D2 diff algebra_simps)
      with rb len bw all val step show ?thesis by simp
    next
      case nonneg: False
      have lo: "0 \<le> diff" and hi: "diff < int BASE"
        using x y "1.prems"(4) nonneg by (auto simp: diff)
      then have dg: "to_DigitType diff = nat diff"
        by (intro to_DigitType_nat) (simp_all add: BASE_def)
      have dlt: "nat diff < BASE" using lo hi by simp
      have step: "sub_loop d1 d2 i borrow res = sub_loop d1 d2 (i + 1) 0 (res @ [nat diff])"
        using True nonneg by (subst sub_loop.simps) (simp add: Let_def dg [unfolded diff_def] diff_def)
      have res': "list_all (\<lambda>d. d < BASE) (res @ [to_DigitType diff])"
        using "1.prems"(7) dlt by (simp add: dg)
      have len': "length (res @ [to_DigitType diff]) = i + 1"
        using "1.prems"(1) by simp
      from "1.IH"(2) [OF True diff_def nonneg len' i1 "1.prems"(3) _ "1.prems"(5,6) res']
      obtain r bw where rb: "sub_loop d1 d2 (i + 1) 0 (res @ [nat diff]) = (r, bw)"
        and len: "length r = length d1" and bw: "bw = 0 \<or> bw = 1"
        and all: "list_all (\<lambda>d. d < BASE) r"
        and val: "int (digits_value r) - int BASE ^ length d1 * bw
             = int (digits_value (res @ [nat diff]))
               + int BASE ^ (i + 1) * (int (digits_value (drop (i + 1) d1))
                                       - int (digits_value (drop (i + 1) d2)) - 0)"
        by (auto simp: dg)
      have "int (digits_value (res @ [nat diff]))
               + int BASE ^ (i + 1) * (int (digits_value (drop (i + 1) d1))
                                       - int (digits_value (drop (i + 1) d2)) - 0)
          = int (digits_value res)
               + int BASE ^ i * (int (digits_value (drop i d1)) - int (digits_value (drop i d2)) - borrow)"
        using "1.prems"(1) lo by (simp add: digits_value_snoc D1 D2 diff algebra_simps)
      with rb len bw all val step show ?thesis by simp
    qed
  qed
qed

lemma not_shorter:
  assumes "well_formed a" "well_formed b" "magnitude b \<le> magnitude a"
  shows "length (digits b) \<le> length (digits a)"
proof (rule ccontr)
  assume "\<not> length (digits b) \<le> length (digits a)"
  then have "length (digits a) < length (digits b)" by simp
  from shorter_less [OF assms(1,2) this] assms(3) show False by simp
qed

lemma sub_loop_no_borrow:
  assumes "well_formed a" "well_formed b" "magnitude b \<le> magnitude a"
  shows "\<exists>r. sub_loop (digits a) (digits b) 0 0 [] = (r, 0)
           \<and> list_all (\<lambda>d. d < BASE) r
           \<and> digits_value r = magnitude a - magnitude b"
proof -
  have da: "list_all (\<lambda>d. d < BASE) (digits a)" and db: "list_all (\<lambda>d. d < BASE) (digits b)"
    using assms by (simp_all add: well_formed_def)
  have len: "length (digits b) \<le> length (digits a)" using assms by (rule not_shorter)
  from sub_loop_correct [of "[]" 0 "digits a" "digits b" 0] da db len
  obtain r bw where rb: "sub_loop (digits a) (digits b) 0 0 [] = (r, bw)"
    and lr: "length r = length (digits a)" and bw: "bw = 0 \<or> bw = 1"
    and all: "list_all (\<lambda>d. d < BASE) r"
    and val: "int (digits_value r) - int BASE ^ length (digits a) * bw
                = int (magnitude a) - int (magnitude b)"
    by (auto simp: magnitude_def)
  have "digits_value r < BASE ^ length r" using all by (rule digits_value_bound)
  then have ub: "int (digits_value r) < int BASE ^ length (digits a)"
    by (simp add: lr flip: of_nat_power)
  have bw0: "bw = 0"
  proof (rule ccontr)
    assume "bw \<noteq> 0"
    with bw have "bw = 1" by simp
    with val ub assms(3) show False by simp
  qed
  with val assms(3) have "digits_value r = magnitude a - magnitude b" by simp
  with rb all bw0 show ?thesis by simp
qed

lemma subtractMagnitude_correct:
  assumes "well_formed a" "well_formed b" "magnitude b \<le> magnitude a"
  shows "\<exists>r. subtractMagnitude a b = Inr r \<and> well_formed r \<and> \<not> sign r
           \<and> magnitude r = magnitude a - magnitude b"
proof -
  from sub_loop_no_borrow [OF assms]
  obtain ds where ds: "sub_loop (digits a) (digits b) 0 0 [] = (ds, 0)"
    and all: "list_all (\<lambda>d. d < BASE) ds"
    and val: "digits_value ds = magnitude a - magnitude b"
    by blast
  let ?n = "normalize_Integer \<lparr>sign = False, digits = ds\<rparr>"
  have wf: "well_formed ?n" using all by (intro normalize_Integer_well_formed) simp
  have "subtractMagnitude a b = Inr (normalize_Integer ?n)"
    by (simp add: subtractMagnitude_def ds Integer_vec_ok [OF all])
  then have "subtractMagnitude a b = Inr ?n" by (simp add: normalize_Integer_id [OF wf])
  moreover have "magnitude ?n = magnitude a - magnitude b"
    by (simp add: normalize_Integer_magnitude) (simp add: magnitude_def val)
  moreover have "\<not> sign ?n" using all by (simp add: normalize_Integer_sign)
  ultimately show ?thesis using wf by blast
qed

section \<open>Signed addition and subtraction\<close>

lemma well_formed_digits: "well_formed i \<Longrightarrow> list_all (\<lambda>d. d < BASE) (digits i)"
  by (simp add: well_formed_def)

lemma well_formed_sign_pos:
  assumes "well_formed i" "sign i"
  shows "0 < magnitude i"
proof -
  have "digits i \<noteq> []" using assms by (auto simp: well_formed_def canonical_def)
  with well_formed_zero_iff [OF assms(1)] show ?thesis by simp
qed

lemma set_sign_normalize:
  assumes "well_formed r"
  shows "well_formed (normalize_Integer (r\<lparr>sign := s\<rparr>))"
    and "magnitude (normalize_Integer (r\<lparr>sign := s\<rparr>)) = magnitude r"
    and "sign (normalize_Integer (r\<lparr>sign := s\<rparr>)) = (s \<and> magnitude r \<noteq> 0)"
proof -
  have all: "list_all (\<lambda>d. d < BASE) (digits (r\<lparr>sign := s\<rparr>))"
    using assms by (simp add: well_formed_def)
  show "well_formed (normalize_Integer (r\<lparr>sign := s\<rparr>))"
    using all by (rule normalize_Integer_well_formed)
  show "magnitude (normalize_Integer (r\<lparr>sign := s\<rparr>)) = magnitude r"
    by (simp add: normalize_Integer_magnitude) (simp add: magnitude_def)
  show "sign (normalize_Integer (r\<lparr>sign := s\<rparr>)) = (s \<and> magnitude r \<noteq> 0)"
    using all by (simp add: normalize_Integer_sign) (simp add: magnitude_def)
qed

lemma well_formed_default: "well_formed Integer_default"
  by (simp add: well_formed_def canonical_def Integer_default_def)

lemma uminus_Integer_well_formed: "well_formed i \<Longrightarrow> well_formed (uminus_Integer i)"
  by (auto simp: uminus_Integer_def well_formed_def canonical_def isZero_def)

lemma uminus_Integer_magnitude: "magnitude (uminus_Integer i) = magnitude i"
  by (simp add: uminus_Integer_def magnitude_def)

lemma uminus_Integer_sign:
  assumes "well_formed i"
  shows "sign (uminus_Integer i) = (\<not> sign i \<and> magnitude i \<noteq> 0)"
proof (cases "digits i = []")
  case True
  with assms well_formed_zero_iff [OF assms] show ?thesis
    by (simp add: uminus_Integer_def isZero_def well_formed_def canonical_def)
next
  case False
  with well_formed_zero_iff [OF assms] show ?thesis
    by (simp add: uminus_Integer_def isZero_def)
qed

text \<open>What \<open>operator+\<close> returns on well-formed operands, branch by branch.\<close>

lemma plus_Integer_spec:
  assumes "well_formed a" "well_formed b"
  shows "\<exists>r. plus_Integer a b = Inr r \<and> well_formed r
           \<and> (if sign a = sign b
               then sign r = sign a \<and> magnitude r = magnitude a + magnitude b
               else if magnitude b < magnitude a
               then sign r = sign a \<and> magnitude r = magnitude a - magnitude b
               else if magnitude a < magnitude b
               then sign r = sign b \<and> magnitude r = magnitude b - magnitude a
               else r = Integer_default)"
proof (cases "sign a = sign b")
  case True
  from addMagnitude_correct [OF assms]
  obtain r where r: "addMagnitude a b = Inr r" and wf: "well_formed r"
    and m: "magnitude r = magnitude a + magnitude b" by blast
  let ?n = "normalize_Integer (r\<lparr>sign := sign a\<rparr>)"
  have p: "plus_Integer a b = Inr ?n" using True r by (simp add: plus_Integer_def)
  have "sign a \<Longrightarrow> magnitude r \<noteq> 0"
    using well_formed_sign_pos [OF assms(1)] m by simp
  then have "sign ?n = sign a" by (auto simp: set_sign_normalize(3) [OF wf])
  with p True m set_sign_normalize(1,2) [OF wf, of "sign a"] show ?thesis by simp
next
  case False
  note cmp = compareMagnitude_correct [OF assms]
  consider (gt) "magnitude b < magnitude a" | (lt) "magnitude a < magnitude b"
    | (eq) "magnitude a = magnitude b" by linarith
  then show ?thesis
  proof cases
    case gt
    then have le: "magnitude b \<le> magnitude a" by simp
    from subtractMagnitude_correct [OF assms le]
    obtain r where r: "subtractMagnitude a b = Inr r" and wf: "well_formed r"
      and m: "magnitude r = magnitude a - magnitude b" by blast
    let ?n = "normalize_Integer (r\<lparr>sign := sign a\<rparr>)"
    have p: "plus_Integer a b = Inr ?n"
      using False gt r by (simp add: plus_Integer_def cmp)
    have "magnitude r \<noteq> 0" using gt m by simp
    then have "sign ?n = sign a" by (simp add: set_sign_normalize(3) [OF wf])
    with p False gt m set_sign_normalize(1,2) [OF wf, of "sign a"] show ?thesis by simp
  next
    case lt
    then have le: "magnitude a \<le> magnitude b" by simp
    from subtractMagnitude_correct [OF assms(2,1) le]
    obtain r where r: "subtractMagnitude b a = Inr r" and wf: "well_formed r"
      and m: "magnitude r = magnitude b - magnitude a" by blast
    let ?n = "normalize_Integer (r\<lparr>sign := sign b\<rparr>)"
    have p: "plus_Integer a b = Inr ?n"
      using False lt r by (simp add: plus_Integer_def cmp)
    have "magnitude r \<noteq> 0" using lt m by simp
    then have "sign ?n = sign b" by (simp add: set_sign_normalize(3) [OF wf])
    with p False lt m set_sign_normalize(1,2) [OF wf, of "sign b"] show ?thesis by simp
  next
    case eq
    then have "plus_Integer a b = Inr Integer_default"
      using False by (simp add: plus_Integer_def cmp)
    with False eq well_formed_default show ?thesis by simp
  qed
qed

lemma plus_Integer_value:
  assumes "well_formed a" "well_formed b"
  shows "\<exists>r. plus_Integer a b = Inr r \<and> well_formed r
           \<and> int_of_Integer r = int_of_Integer a + int_of_Integer b"
proof -
  from plus_Integer_spec [OF assms]
  obtain r where r: "plus_Integer a b = Inr r" and wf: "well_formed r"
    and s: "if sign a = sign b
               then sign r = sign a \<and> magnitude r = magnitude a + magnitude b
               else if magnitude b < magnitude a
               then sign r = sign a \<and> magnitude r = magnitude a - magnitude b
               else if magnitude a < magnitude b
               then sign r = sign b \<and> magnitude r = magnitude b - magnitude a
               else r = Integer_default"
    by blast
  have "int_of_Integer r = int_of_Integer a + int_of_Integer b"
  proof (cases "sign a = sign b")
    case True
    with s show ?thesis by (simp add: int_of_Integer_def)
  next
    case False
    consider (gt) "magnitude b < magnitude a" | (lt) "magnitude a < magnitude b"
      | (eq) "magnitude a = magnitude b" by linarith
    then show ?thesis
    proof cases
      case gt
      with s False show ?thesis by (auto simp: int_of_Integer_def)
    next
      case lt
      with s False show ?thesis by (auto simp: int_of_Integer_def)
    next
      case eq
      with s False show ?thesis
        by (auto simp: int_of_Integer_def Integer_default_def magnitude_def)
    qed
  qed
  with r wf show ?thesis by blast
qed

lemma int_of_uminus_Integer:
  "well_formed i \<Longrightarrow> int_of_Integer (uminus_Integer i) = - int_of_Integer i"
  by (simp add: int_of_Integer_def uminus_Integer_sign uminus_Integer_magnitude)

text \<open>The call list describes the calls that \<open>plus_Integer\<close> makes.\<close>

lemma plus_Integer_calls:
  "plus_Integer a b =
     (case subtractMagnitude_calls a b of
        [] \<Rightarrow> (if sign a = sign b
               then (case addMagnitude a b of
                       Inl e \<Rightarrow> Inl e
                     | Inr r \<Rightarrow> Inr (normalize_Integer (r\<lparr>sign := sign a\<rparr>)))
               else Inr Integer_default)
      | (x, y) # _ \<Rightarrow>
          (case subtractMagnitude x y of
             Inl e \<Rightarrow> Inl e
           | Inr r \<Rightarrow> Inr (normalize_Integer (r\<lparr>sign := sign x\<rparr>))))"
  by (simp add: plus_Integer_def subtractMagnitude_calls_def Let_def)

lemma subtractMagnitude_calls_le:
  assumes "well_formed a" "well_formed b" "(x, y) \<in> set (subtractMagnitude_calls a b)"
  shows "well_formed x \<and> well_formed y \<and> magnitude y \<le> magnitude x"
  using assms(3) assms(1,2)
  by (auto simp: subtractMagnitude_calls_def compareMagnitude_correct [OF assms(1,2)] Let_def
      split: if_splits)

lemma call_ok:
  assumes "well_formed x" "well_formed y" "magnitude y \<le> magnitude x"
  shows "final_borrow x y = 0
       \<and> (\<exists>r. subtractMagnitude x y = Inr r \<and> magnitude r = magnitude x - magnitude y)"
proof -
  from sub_loop_no_borrow [OF assms]
  have "final_borrow x y = 0" by (auto simp: final_borrow_def)
  moreover from subtractMagnitude_correct [OF assms]
  have "\<exists>r. subtractMagnitude x y = Inr r \<and> magnitude r = magnitude x - magnitude y" by blast
  ultimately show ?thesis by simp
qed

section \<open>Properties of addition and ordering\<close>

text \<open>
  C6. For well-formed \<open>a\<close> and \<open>b\<close> (the form of every \<open>Integer\<close> a caller can hold),
  \<open>a + b\<close> returns a value: with equal signs it has that sign and magnitude
  \<open>|a| + |b|\<close>; with different signs it has the sign of the operand of larger magnitude
  and the larger magnitude minus the smaller; with different signs and equal magnitudes it
  is the canonical zero.
\<close>

theorem plus_Integer_sign_magnitude:
  assumes "well_formed a" "well_formed b"
  shows "\<exists>r. plus_Integer a b = Inr r
           \<and> (if sign a = sign b
               then sign r = sign a \<and> magnitude r = magnitude a + magnitude b
               else if magnitude b < magnitude a
               then sign r = sign a \<and> magnitude r = magnitude a - magnitude b
               else if magnitude a < magnitude b
               then sign r = sign b \<and> magnitude r = magnitude b - magnitude a
               else r = \<lparr>sign = False, digits = []\<rparr>)"
  using plus_Integer_spec [OF assms] unfolding Integer_default_def by blast

theorem plus_Integer_sign_magnitude_witness:
  "well_formed \<lparr>sign = False, digits = [5]\<rparr> \<and> well_formed \<lparr>sign = True, digits = [12, 3]\<rparr>
   \<and> well_formed \<lparr>sign = True, digits = [5]\<rparr>
   \<and> (\<exists>r. plus_Integer \<lparr>sign = False, digits = [5]\<rparr> \<lparr>sign = True, digits = [12, 3]\<rparr> = Inr r
          \<and> sign r \<and> magnitude r = 307)
   \<and> (\<exists>r. plus_Integer \<lparr>sign = True, digits = [12, 3]\<rparr> \<lparr>sign = True, digits = [5]\<rparr> = Inr r
          \<and> sign r \<and> magnitude r = 317)
   \<and> plus_Integer \<lparr>sign = False, digits = [5]\<rparr> \<lparr>sign = True, digits = [5]\<rparr>
       = Inr \<lparr>sign = False, digits = []\<rparr>"
proof -
  have h1: "well_formed \<lparr>sign = False, digits = [5]\<rparr>"
    by (simp add: well_formed_def canonical_def BASE_def)
  have h2: "well_formed \<lparr>sign = True, digits = [12, 3]\<rparr>"
    by (simp add: well_formed_def canonical_def BASE_def)
  have h3: "well_formed \<lparr>sign = True, digits = [5]\<rparr>"
    by (simp add: well_formed_def canonical_def BASE_def)
  from plus_Integer_sign_magnitude [OF h1 h2]
  have differ: "\<exists>r. plus_Integer \<lparr>sign = False, digits = [5]\<rparr> \<lparr>sign = True, digits = [12, 3]\<rparr> = Inr r
          \<and> sign r \<and> magnitude r = 307"
    by (simp add: magnitude_def BASE_def)
  from plus_Integer_sign_magnitude [OF h2 h3]
  have same: "\<exists>r. plus_Integer \<lparr>sign = True, digits = [12, 3]\<rparr> \<lparr>sign = True, digits = [5]\<rparr> = Inr r
          \<and> sign r \<and> magnitude r = 317"
    by (simp add: magnitude_def BASE_def)
  from plus_Integer_sign_magnitude [OF h1 h3]
  have cancel: "plus_Integer \<lparr>sign = False, digits = [5]\<rparr> \<lparr>sign = True, digits = [5]\<rparr>
       = Inr \<lparr>sign = False, digits = []\<rparr>"
    by (auto simp: magnitude_def BASE_def)
  from h1 h2 h3 differ same cancel show ?thesis by blast
qed

text \<open>
  C10. Every call of \<open>subtractMagnitude\<close> that addition makes on well-formed operands,
  and so every call that subtraction makes (it adds the negation), passes the operand of
  larger magnitude first; the borrow after the last digit is then zero and the call
  returns the difference of the magnitudes.
\<close>

theorem subtractMagnitude_calls_safe:
  assumes "well_formed a" "well_formed b"
  shows "list_all (\<lambda>(x, y). magnitude y \<le> magnitude x \<and> final_borrow x y = 0
                    \<and> (\<exists>r. subtractMagnitude x y = Inr r
                            \<and> magnitude r = magnitude x - magnitude y))
           (subtractMagnitude_calls a b @ subtractMagnitude_calls a (uminus_Integer b))"
proof -
  have nb: "well_formed (uminus_Integer b)" using assms(2) by (rule uminus_Integer_well_formed)
  have "magnitude y \<le> magnitude x \<and> final_borrow x y = 0
          \<and> (\<exists>r. subtractMagnitude x y = Inr r \<and> magnitude r = magnitude x - magnitude y)"
    if "(x, y) \<in> set (subtractMagnitude_calls a b) \<union> set (subtractMagnitude_calls a (uminus_Integer b))"
    for x y
  proof -
    from that subtractMagnitude_calls_le [OF assms] subtractMagnitude_calls_le [OF assms(1) nb]
    have "well_formed x \<and> well_formed y \<and> magnitude y \<le> magnitude x" by blast
    then show ?thesis using call_ok [of x y] by blast
  qed
  then show ?thesis by (auto simp: list_all_iff)
qed

theorem subtractMagnitude_calls_safe_witness:
  "well_formed \<lparr>sign = False, digits = [5]\<rparr> \<and> well_formed \<lparr>sign = True, digits = [12, 3]\<rparr>
   \<and> subtractMagnitude_calls \<lparr>sign = False, digits = [5]\<rparr> \<lparr>sign = True, digits = [12, 3]\<rparr>
       = [(\<lparr>sign = True, digits = [12, 3]\<rparr>, \<lparr>sign = False, digits = [5]\<rparr>)]
   \<and> final_borrow \<lparr>sign = True, digits = [12, 3]\<rparr> \<lparr>sign = False, digits = [5]\<rparr> = 0"
proof -
  have h1: "well_formed \<lparr>sign = False, digits = [5]\<rparr>"
    by (simp add: well_formed_def canonical_def BASE_def)
  have h2: "well_formed \<lparr>sign = True, digits = [12, 3]\<rparr>"
    by (simp add: well_formed_def canonical_def BASE_def)
  have c: "subtractMagnitude_calls \<lparr>sign = False, digits = [5]\<rparr> \<lparr>sign = True, digits = [12, 3]\<rparr>
       = [(\<lparr>sign = True, digits = [12, 3]\<rparr>, \<lparr>sign = False, digits = [5]\<rparr>)]"
    by (simp add: subtractMagnitude_calls_def compareMagnitude_def)
  from subtractMagnitude_calls_safe [OF h1 h2]
  have "final_borrow \<lparr>sign = True, digits = [12, 3]\<rparr> \<lparr>sign = False, digits = [5]\<rparr> = 0"
    by (simp add: c)
  with h1 h2 c show ?thesis by simp
qed

subsection \<open>Ordering\<close>

lemma eq_Integer_iff:
  assumes "well_formed a" "well_formed b"
  shows "eq_Integer a b \<longleftrightarrow> int_of_Integer a = int_of_Integer b"
proof (cases "sign a = sign b")
  case True
  then have "eq_Integer a b \<longleftrightarrow> digits a = digits b"
    by (auto simp: eq_Integer_def isZero_def)
  also have "\<dots> \<longleftrightarrow> magnitude a = magnitude b"
    using well_formed_digits_eqI [OF assms] by (auto simp: magnitude_def)
  also have "\<dots> \<longleftrightarrow> int_of_Integer a = int_of_Integer b"
    using True by (simp add: int_of_Integer_def)
  finally show ?thesis .
next
  case False
  have nz: "\<not> (isZero a \<and> isZero b)"
    using False assms by (auto simp: isZero_def well_formed_def canonical_def)
  have "int_of_Integer a \<noteq> int_of_Integer b"
  proof (cases "sign a")
    case True
    with False well_formed_sign_pos [OF assms(1)] show ?thesis
      by (simp add: int_of_Integer_def)
  next
    case sa: False
    with False have "sign b" by simp
    with sa well_formed_sign_pos [OF assms(2)] show ?thesis
      by (simp add: int_of_Integer_def)
  qed
  moreover have "\<not> eq_Integer a b" using nz False by (auto simp: eq_Integer_def)
  ultimately show ?thesis by simp
qed

lemma less_Integer_iff:
  assumes "well_formed a" "well_formed b"
  shows "less_Integer a b \<longleftrightarrow> int_of_Integer a < int_of_Integer b"
proof -
  note za = well_formed_zero_iff [OF assms(1)]
  note zb = well_formed_zero_iff [OF assms(2)]
  note cmp = compareMagnitude_correct [OF assms]
  consider (nb) "sign a" "\<not> sign b" | (bn) "\<not> sign a" "sign b"
    | (nn) "sign a" "sign b" | (bb) "\<not> sign a" "\<not> sign b" by blast
  then show ?thesis
  proof cases
    case nb
    with well_formed_sign_pos [OF assms(1)] show ?thesis
      by (simp add: less_Integer_def int_of_Integer_def)
  next
    case bn
    with well_formed_sign_pos [OF assms(2)] show ?thesis
      by (simp add: less_Integer_def int_of_Integer_def)
  next
    case nn
    with za zb well_formed_sign_pos [OF assms(1)] well_formed_sign_pos [OF assms(2)]
    show ?thesis
      by (simp add: less_Integer_def int_of_Integer_def isZero_def cmp)
  next
    case bb
    with za zb show ?thesis
      by (auto simp: less_Integer_def int_of_Integer_def isZero_def cmp)
  qed
qed

text \<open>
  C8. For well-formed \<open>a\<close> and \<open>b\<close>, exactly one of \<open>a < b\<close>, \<open>a == b\<close>, \<open>a > b\<close>
  holds, and \<open>a < b\<close> exactly when \<open>b > a\<close>; a negative value is less than every
  value that is not negative; two values with no digits are equal whatever their sign
  bits; of two negative values the one of larger magnitude is the smaller.
\<close>

theorem Integer_ordering:
  assumes "well_formed a" "well_formed b"
  shows "((less_Integer a b \<and> \<not> eq_Integer a b \<and> \<not> greater_Integer a b)
          \<or> (\<not> less_Integer a b \<and> eq_Integer a b \<and> \<not> greater_Integer a b)
          \<or> (\<not> less_Integer a b \<and> \<not> eq_Integer a b \<and> greater_Integer a b))
       \<and> (less_Integer a b \<longleftrightarrow> greater_Integer b a)
       \<and> (isNegative a \<and> \<not> isNegative b \<longrightarrow> less_Integer a b)
       \<and> eq_Integer \<lparr>sign = s, digits = []\<rparr> \<lparr>sign = t, digits = []\<rparr>
       \<and> (isNegative a \<and> isNegative b \<longrightarrow> (less_Integer a b \<longleftrightarrow> magnitude b < magnitude a))"
proof -
  note l = less_Integer_iff [OF assms]
  note g = less_Integer_iff [OF assms(2,1)]
  note e = eq_Integer_iff [OF assms]
  have tri: "(less_Integer a b \<and> \<not> eq_Integer a b \<and> \<not> greater_Integer a b)
          \<or> (\<not> less_Integer a b \<and> eq_Integer a b \<and> \<not> greater_Integer a b)
          \<or> (\<not> less_Integer a b \<and> \<not> eq_Integer a b \<and> greater_Integer a b)"
    unfolding greater_Integer_def l g e by linarith
  have sym: "less_Integer a b \<longleftrightarrow> greater_Integer b a"
    by (simp add: greater_Integer_def)
  have negnon: "less_Integer a b" if "isNegative a" "\<not> isNegative b"
  proof -
    from that(1) have sa: "sign a" by (simp add: isNegative_def)
    from that(2) well_formed_zero_iff [OF assms(2)]
    have "int_of_Integer b \<ge> 0"
      by (auto simp: isNegative_def isZero_def int_of_Integer_def)
    with sa well_formed_sign_pos [OF assms(1) sa] show ?thesis
      by (simp add: l int_of_Integer_def)
  qed
  have zeros: "eq_Integer \<lparr>sign = s, digits = []\<rparr> \<lparr>sign = t, digits = []\<rparr>"
    by (simp add: eq_Integer_def isZero_def)
  have negneg: "less_Integer a b \<longleftrightarrow> magnitude b < magnitude a"
    if "isNegative a" "isNegative b"
    using that by (simp add: l int_of_Integer_def isNegative_def)
  from tri sym negnon zeros negneg show ?thesis by blast
qed

theorem Integer_ordering_witness:
  "well_formed \<lparr>sign = True, digits = [12, 3]\<rparr> \<and> well_formed \<lparr>sign = True, digits = [5]\<rparr>
   \<and> well_formed \<lparr>sign = False, digits = []\<rparr>
   \<and> less_Integer \<lparr>sign = True, digits = [12, 3]\<rparr> \<lparr>sign = True, digits = [5]\<rparr>
   \<and> \<not> eq_Integer \<lparr>sign = True, digits = [12, 3]\<rparr> \<lparr>sign = True, digits = [5]\<rparr>
   \<and> \<not> greater_Integer \<lparr>sign = True, digits = [12, 3]\<rparr> \<lparr>sign = True, digits = [5]\<rparr>
   \<and> less_Integer \<lparr>sign = True, digits = [5]\<rparr> \<lparr>sign = False, digits = []\<rparr>"
proof -
  have h1: "well_formed \<lparr>sign = True, digits = [12, 3]\<rparr>"
    by (simp add: well_formed_def canonical_def BASE_def)
  have h2: "well_formed \<lparr>sign = True, digits = [5]\<rparr>"
    by (simp add: well_formed_def canonical_def BASE_def)
  have h3: "well_formed \<lparr>sign = False, digits = []\<rparr>"
    by (simp add: well_formed_def canonical_def)
  have n1: "isNegative \<lparr>sign = True, digits = [12, 3]\<rparr>"
    and n2: "isNegative \<lparr>sign = True, digits = [5]\<rparr>"
    and n3: "\<not> isNegative \<lparr>sign = False, digits = []\<rparr>"
    by (simp_all add: isNegative_def isZero_def)
  from Integer_ordering [OF h1 h2, of False False] n1 n2
  have neg: "less_Integer \<lparr>sign = True, digits = [12, 3]\<rparr> \<lparr>sign = True, digits = [5]\<rparr>
   \<and> \<not> eq_Integer \<lparr>sign = True, digits = [12, 3]\<rparr> \<lparr>sign = True, digits = [5]\<rparr>
   \<and> \<not> greater_Integer \<lparr>sign = True, digits = [12, 3]\<rparr> \<lparr>sign = True, digits = [5]\<rparr>"
    by (auto simp: magnitude_def BASE_def)
  from Integer_ordering [OF h2 h3, of False False] n2 n3
  have mixed: "less_Integer \<lparr>sign = True, digits = [5]\<rparr> \<lparr>sign = False, digits = []\<rparr>"
    by blast
  from h1 h2 h3 neg mixed show ?thesis by blast
qed

section \<open>Multiplication\<close>

lemma list_all_update: "list_all P xs \<Longrightarrow> P x \<Longrightarrow> list_all P (xs[k := x])"
  by (auto simp: list_all_iff dest: set_update_subset_insert [THEN subsetD])

lemma div_mod_scaled: "P * (v mod BASE) + P * BASE * (v div BASE) = P * (v :: nat)"
proof -
  have "P * (v mod BASE + BASE * (v div BASE)) = P * v" by simp
  then show ?thesis by (simp only: distrib_left mult.assoc)
qed

lemma mul_row_correct:
  assumes "i < length d1" "j \<le> length d2" "length tmp = length d1 + length d2" "carry < BASE"
    and "list_all (\<lambda>d. d < BASE) d1" "list_all (\<lambda>d. d < BASE) d2" "list_all (\<lambda>d. d < BASE) tmp"
  shows "\<exists>tmp' c. mul_row d1 d2 i j carry tmp = Inr (tmp', c) \<and> length tmp' = length tmp
           \<and> c < BASE \<and> list_all (\<lambda>d. d < BASE) tmp'
           \<and> digits_value tmp' + BASE ^ (i + length d2) * c
             = digits_value tmp + BASE ^ (i + j) * carry
               + BASE ^ (i + j) * (d1 ! i * digits_value (drop j d2))"
  using assms
proof (induction d1 d2 i j carry tmp rule: mul_row.induct)
  case (1 d1 d2 i j carry tmp)
  show ?case
  proof (cases "j < length d2")
    case False
    with "1.prems" have "j = length d2" by simp
    with "1.prems" show ?thesis by (subst mul_row.simps) simp
  next
    case True
    define k where "k = i + j"
    define t where "t = tmp ! k"
    define x where "x = d1 ! i"
    define y where "y = d2 ! j"
    define v where "v = tmp ! (i + j) + d1 ! i * d2 ! j + carry"
    define P where "P = BASE ^ k"
    define D where "D = digits_value (drop (j + 1) d2)"
    have k: "k < length tmp" using True "1.prems"(1,3) by (simp add: k_def)
    then have nk: "\<not> length tmp \<le> i + j" by (simp add: k_def)
    have t: "t < BASE" using "1.prems"(7) k by (simp add: t_def list_all_length)
    have x: "x < BASE" using "1.prems"(5,1) by (simp add: x_def list_all_length)
    have y: "y < BASE" using "1.prems"(6) True by (simp add: y_def list_all_length)
    have v: "v = t + x * y + carry" by (simp add: v_def t_def x_def y_def k_def)
    have "x * y \<le> 99 * 99"
      using x y by (intro mult_mono) (simp_all add: BASE_def)
    then have "v < BASE * BASE" using t "1.prems"(4) by (simp add: v BASE_def)
    then have c': "v div BASE < BASE" by (simp add: BASE_def)
    have m: "v mod BASE < BASE" by (simp add: BASE_def)
    have step: "mul_row d1 d2 i j carry tmp
        = mul_row d1 d2 i (j + 1) (v div BASE) (tmp[i + j := v mod BASE])"
      using True nk by (subst mul_row.simps) (simp add: Let_def v_def)
    have tmp': "list_all (\<lambda>d. d < BASE) (tmp[i + j := v mod BASE])"
      using "1.prems"(7) m by (rule list_all_update)
    have j1: "j + 1 \<le> length d2" using True by simp
    have len': "length (tmp[i + j := v mod BASE]) = length d1 + length d2"
      using "1.prems"(3) by simp
    from "1.IH" [OF True nk v_def "1.prems"(1) j1 len' c' "1.prems"(5,6) tmp']
    obtain r c where rc: "mul_row d1 d2 i (j + 1) (v div BASE) (tmp[i + j := v mod BASE]) = Inr (r, c)"
      and len: "length r = length tmp" and c: "c < BASE" and all: "list_all (\<lambda>d. d < BASE) r"
      and val: "digits_value r + BASE ^ (i + length d2) * c
             = digits_value (tmp[k := v mod BASE]) + P * BASE * (v div BASE) + P * BASE * (x * D)"
      by (auto simp: k_def P_def x_def D_def mult.assoc)
    have upd: "digits_value (tmp[k := v mod BASE]) + P * t = digits_value tmp + P * (v mod BASE)"
      unfolding P_def t_def using k by (rule digits_value_update)
    have pv: "P * v = P * t + P * (x * y) + P * carry" by (simp add: v distrib_left)
    have Dj: "digits_value (drop j d2) = y + BASE * D"
      using digits_value_drop [of j d2] True by (simp add: y_def D_def)
    have "(digits_value r + BASE ^ (i + length d2) * c) + P * t
        = (digits_value tmp + P * carry + P * (x * (y + BASE * D))) + P * t"
      using val upd pv div_mod_scaled [of P v] by (simp add: algebra_simps)
    then have "digits_value r + BASE ^ (i + length d2) * c
        = digits_value tmp + P * carry + P * (x * (y + BASE * D))"
      by simp
    then have "digits_value r + BASE ^ (i + length d2) * c
             = digits_value tmp + BASE ^ (i + j) * carry
               + BASE ^ (i + j) * (d1 ! i * digits_value (drop j d2))"
      by (simp only: Dj P_def k_def x_def)
    with rc len c all step show ?thesis by simp
  qed
qed

lemma mul_carry_correct:
  assumes "list_all (\<lambda>d. d < BASE) tmp"
    and "digits_value tmp + BASE ^ pos * carry < BASE ^ length tmp"
  shows "\<exists>tmp'. mul_carry tmp pos carry = Inr tmp' \<and> length tmp' = length tmp
           \<and> list_all (\<lambda>d. d < BASE) tmp'
           \<and> digits_value tmp' = digits_value tmp + BASE ^ pos * carry"
  using assms
proof (induction tmp pos carry rule: mul_carry.induct)
  case (1 tmp pos carry)
  show ?case
  proof (cases "carry = 0")
    case True
    with "1.prems" show ?thesis by (subst mul_carry.simps) simp
  next
    case False
    define v where "v = tmp ! pos + carry"
    define P where "P = BASE ^ pos"
    have pos: "pos < length tmp"
    proof (rule ccontr)
      assume "\<not> pos < length tmp"
      then have "BASE ^ length tmp \<le> BASE ^ pos"
        by (intro power_increasing) (simp_all add: BASE_def)
      also have "\<dots> \<le> BASE ^ pos * carry" using False by simp
      finally show False using "1.prems"(2) by simp
    qed
    then have np: "\<not> length tmp \<le> pos" by simp
    have m: "v mod BASE < BASE" by (simp add: BASE_def)
    have step: "mul_carry tmp pos carry = mul_carry (tmp[pos := v mod BASE]) (pos + 1) (v div BASE)"
      using False np by (subst mul_carry.simps) (simp add: Let_def v_def)
    have tmp': "list_all (\<lambda>d. d < BASE) (tmp[pos := v mod BASE])"
      using "1.prems"(1) m by (rule list_all_update)
    have upd: "digits_value (tmp[pos := v mod BASE]) + P * tmp ! pos
                 = digits_value tmp + P * (v mod BASE)"
      unfolding P_def using pos by (rule digits_value_update)
    have pv: "P * v = P * tmp ! pos + P * carry" by (simp add: v_def distrib_left)
    have "(digits_value (tmp[pos := v mod BASE]) + P * BASE * (v div BASE)) + P * tmp ! pos
            = (digits_value tmp + P * carry) + P * tmp ! pos"
      using upd pv div_mod_scaled [of P v] by (simp add: algebra_simps)
    then have eq: "digits_value (tmp[pos := v mod BASE]) + BASE ^ (pos + 1) * (v div BASE)
            = digits_value tmp + BASE ^ pos * carry"
      by (simp add: P_def algebra_simps)
    then have bound: "digits_value (tmp[pos := v mod BASE]) + BASE ^ (pos + 1) * (v div BASE)
            < BASE ^ length (tmp[pos := v mod BASE])"
      using "1.prems"(2) by simp
    from "1.IH" [OF False np v_def tmp' bound] eq step show ?thesis by simp
  qed
qed

lemma digits_value_replicate_0: "digits_value (replicate n 0) = 0"
  by (induction n) simp_all

lemma mul_rows_correct:
  assumes "i \<le> length d1" "length tmp = length d1 + length d2"
    and "list_all (\<lambda>d. d < BASE) d1" "list_all (\<lambda>d. d < BASE) d2" "list_all (\<lambda>d. d < BASE) tmp"
    and "digits_value tmp = digits_value (take i d1) * digits_value d2"
  shows "\<exists>r. mul_rows d1 d2 i tmp = Inr r \<and> length r = length tmp
           \<and> list_all (\<lambda>d. d < BASE) r
           \<and> digits_value r = digits_value d1 * digits_value d2"
  using assms
proof (induction d1 d2 i tmp rule: mul_rows.induct)
  case (1 d1 d2 i tmp)
  show ?case
  proof (cases "i < length d1")
    case False
    with "1.prems" have "i = length d1" by simp
    with "1.prems" show ?thesis by (subst mul_rows.simps) simp
  next
    case True
    from mul_row_correct [OF True _ "1.prems"(2) _ "1.prems"(3,4,5), of 0 0]
    obtain tmp1 c where row: "mul_row d1 d2 i 0 0 tmp = Inr (tmp1, c)"
      and len1: "length tmp1 = length tmp" and all1: "list_all (\<lambda>d. d < BASE) tmp1"
      and val1: "digits_value tmp1 + BASE ^ (i + length d2) * c
                   = digits_value tmp + BASE ^ i * (d1 ! i * digits_value d2)"
      by (auto simp: BASE_def)
    have prod: "digits_value tmp + BASE ^ i * (d1 ! i * digits_value d2)
                  = digits_value (take (Suc i) d1) * digits_value d2"
      by (simp add: "1.prems"(6) digits_value_take_Suc [OF True] algebra_simps)
    have "digits_value (take (Suc i) d1) < BASE ^ length (take (Suc i) d1)"
      using list_all_take [OF "1.prems"(3)] by (rule digits_value_bound)
    then have b1: "digits_value (take (Suc i) d1) < BASE ^ Suc i" using True by simp
    have b2: "digits_value d2 < BASE ^ length d2" using "1.prems"(4) by (rule digits_value_bound)
    have "digits_value (take (Suc i) d1) * digits_value d2 < BASE ^ Suc i * BASE ^ length d2"
      using b1 b2 by (intro mult_strict_mono) (simp_all add: BASE_def)
    also have "\<dots> = BASE ^ (Suc i + length d2)" by (simp add: power_add)
    also have "\<dots> \<le> BASE ^ length tmp1"
      using True len1 "1.prems"(2) by (intro power_increasing) (simp_all add: BASE_def)
    finally have bound: "digits_value tmp1 + BASE ^ (i + length d2) * c < BASE ^ length tmp1"
      by (simp add: val1 prod)
    from mul_carry_correct [OF all1 bound]
    obtain tmp2 where car: "mul_carry tmp1 (i + length d2) c = Inr tmp2"
      and len2: "length tmp2 = length tmp1" and all2: "list_all (\<lambda>d. d < BASE) tmp2"
      and val2: "digits_value tmp2 = digits_value tmp1 + BASE ^ (i + length d2) * c"
      by blast
    have step: "mul_rows d1 d2 i tmp = mul_rows d1 d2 (i + 1) tmp2"
      using True by (subst mul_rows.simps) (simp add: row car)
    have i1: "i + 1 \<le> length d1" using True by simp
    have len2': "length tmp2 = length d1 + length d2" using len2 len1 "1.prems"(2) by simp
    have inv: "digits_value tmp2 = digits_value (take (i + 1) d1) * digits_value d2"
      by (simp add: val2 val1 prod)
    from "1.IH" [OF True row refl car i1 len2' "1.prems"(3,4) all2 inv] step len2 len1
    show ?thesis by simp
  qed
qed

lemma trim_length_correct:
  assumes "m \<le> length tmp"
  shows "trim_length tmp m \<le> m
       \<and> digits_value (take (trim_length tmp m) tmp) = digits_value (take m tmp)"
  using assms
proof (induction tmp m rule: trim_length.induct)
  case (1 tmp m)
  show ?case
  proof (cases "1 < m \<and> tmp ! (m - 1) = 0")
    case True
    then have "1 < m" by simp
    then have m1: "m - 1 < length tmp" and sm: "Suc (m - 1) = m" using "1.prems" by simp_all
    from digits_value_take_Suc [OF m1]
    have "digits_value (take m tmp)
            = digits_value (take (m - 1) tmp) + BASE ^ (m - 1) * tmp ! (m - 1)"
      by (simp only: sm)
    with True have same: "digits_value (take m tmp) = digits_value (take (m - 1) tmp)"
      by simp
    have st: "trim_length tmp m = trim_length tmp (m - 1)"
      using True by (subst trim_length.simps) simp
    have "m - 1 \<le> length tmp" using m1 by simp
    from "1.IH" [OF True this]
    have le: "trim_length tmp (m - 1) \<le> m - 1"
      and v: "digits_value (take (trim_length tmp (m - 1)) tmp) = digits_value (take (m - 1) tmp)"
      by simp_all
    from le have "trim_length tmp (m - 1) \<le> m" by linarith
    with v same st show ?thesis by simp
  next
    case False
    then have "trim_length tmp m = m" by (subst trim_length.simps) auto
    then show ?thesis by simp
  qed
qed

lemma trim_length_last:
  assumes "0 < m"
  shows "0 < trim_length tmp m
       \<and> (trim_length tmp m = 1 \<or> tmp ! (trim_length tmp m - 1) \<noteq> 0)"
  using assms
proof (induction tmp m rule: trim_length.induct)
  case (1 tmp m)
  show ?case
  proof (cases "1 < m \<and> tmp ! (m - 1) = 0")
    case True
    then have "trim_length tmp m = trim_length tmp (m - 1)"
      by (subst trim_length.simps) simp
    moreover from True have "0 < m - 1" by simp
    ultimately show ?thesis using "1.IH" [OF True] by simp
  next
    case False
    then have "trim_length tmp m = m" by (subst trim_length.simps) auto
    with False "1.prems" show ?thesis by (cases "m = 1") auto
  qed
qed

lemma copy_accumulator:
  assumes "m \<le> length tmp" "list_all (\<lambda>d. d < BASE) tmp"
  shows "map (\<lambda>k. to_DigitType (int (tmp ! k))) [0..<m] = take m tmp"
proof (rule nth_equalityI)
  show "length (map (\<lambda>k. to_DigitType (int (tmp ! k))) [0..<m]) = length (take m tmp)"
    using assms(1) by simp
next
  fix k
  assume "k < length (map (\<lambda>k. to_DigitType (int (tmp ! k))) [0..<m])"
  then have k: "k < m" by simp
  with assms have "tmp ! k < BASE" by (simp add: list_all_length)
  then have "tmp ! k < 256" by (simp add: BASE_def)
  then have "to_DigitType (int (tmp ! k)) = tmp ! k" by (rule to_DigitType_small)
  with k show "map (\<lambda>k. to_DigitType (int (tmp ! k))) [0..<m] ! k = take m tmp ! k" by simp
qed

text \<open>What \<open>operator*\<close> returns on well-formed operands.\<close>

lemma times_Integer_spec:
  assumes "well_formed a" "well_formed b"
  shows "\<exists>r. times_Integer a b = Inr r \<and> well_formed r
           \<and> magnitude r = magnitude a * magnitude b
           \<and> sign r = (sign a \<noteq> sign b \<and> magnitude a * magnitude b \<noteq> 0)
           \<and> (isZero a \<or> isZero b \<longrightarrow> r = Integer_default)
           \<and> (\<not> isZero a \<and> \<not> isZero b \<longrightarrow>
                (\<exists>tmp. mul_rows (digits a) (digits b) 0
                         (replicate (length (digits a) + length (digits b)) 0) = Inr tmp
                    \<and> length tmp = length (digits a) + length (digits b)
                    \<and> digits_value tmp = magnitude a * magnitude b
                    \<and> digits r = take (trim_length tmp (length tmp)) tmp))"
proof (cases "isZero a \<or> isZero b")
  case True
  then have "magnitude a * magnitude b = 0" by (auto simp: isZero_def magnitude_def)
  moreover have "times_Integer a b = Inr Integer_default"
    using True by (simp add: times_Integer_def)
  moreover have "magnitude Integer_default = 0" "\<not> sign Integer_default"
    by (simp_all add: Integer_default_def magnitude_def)
  ultimately show ?thesis using True well_formed_default by auto
next
  case False
  let ?n = "length (digits a) + length (digits b)"
  have da: "list_all (\<lambda>d. d < BASE) (digits a)" and db: "list_all (\<lambda>d. d < BASE) (digits b)"
    using assms by (simp_all add: well_formed_def)
  have z: "list_all (\<lambda>d. d < BASE) (replicate ?n 0)" by (simp add: list_all_iff BASE_def)
  from mul_rows_correct [of 0 "digits a" "replicate ?n 0" "digits b"] da db z
  obtain tmp where rows: "mul_rows (digits a) (digits b) 0 (replicate ?n 0) = Inr tmp"
    and len: "length tmp = ?n" and all: "list_all (\<lambda>d. d < BASE) tmp"
    and val: "digits_value tmp = magnitude a * magnitude b"
    by (auto simp: digits_value_replicate_0 magnitude_def)
  define m where "m = trim_length tmp (length tmp)"
  have mle: "m \<le> length tmp" and mval: "digits_value (take m tmp) = digits_value tmp"
    using trim_length_correct [of "length tmp" tmp] by (simp_all add: m_def)
  define fd where "fd = (if 0 < m then map (\<lambda>k. to_DigitType (int (tmp ! k))) [0..<m] else [])"
  have fd: "fd = take m tmp"
    using copy_accumulator [OF mle all] by (simp add: fd_def)
  have allfd: "list_all (\<lambda>d. d < BASE) fd" unfolding fd using all by (rule list_all_take)
  let ?r = "normalize_Integer \<lparr>sign = sign a \<noteq> sign b, digits = fd\<rparr>"
  have t: "times_Integer a b = Inr ?r"
    using False rows by (simp add: times_Integer_def Let_def Integer_vec_ok [OF allfd, unfolded fd_def m_def] fd_def m_def)
  have wf: "well_formed ?r" using allfd by (intro normalize_Integer_well_formed) simp
  have mag: "magnitude ?r = magnitude a * magnitude b"
    by (simp add: normalize_Integer_magnitude) (simp add: magnitude_def fd mval val)
  have pos: "magnitude a * magnitude b \<noteq> 0"
    using False well_formed_zero_iff [OF assms(1)] well_formed_zero_iff [OF assms(2)]
    by (simp add: isZero_def)
  have sg: "sign ?r = (sign a \<noteq> sign b \<and> magnitude a * magnitude b \<noteq> 0)"
    using allfd by (simp add: normalize_Integer_sign) (simp add: magnitude_def fd mval val)
  have n0: "0 < length tmp" using False len by (simp add: isZero_def)
  have m0: "0 < m" and mlast: "m = 1 \<or> tmp ! (m - 1) \<noteq> 0"
    using trim_length_last [OF n0, of tmp] by (simp_all add: m_def)
  have lfd: "length fd = m" using mle by (simp add: fd)
  then have fdne: "fd \<noteq> []" using m0 by auto
  have lastfd: "last fd = tmp ! (m - 1)"
    using m0 mle by (simp add: last_conv_nth [OF fdne] lfd) (simp add: fd)
  have "tmp ! (m - 1) \<noteq> 0"
  proof (cases "m = 1")
    case True
    then have "digits_value (take m tmp) = tmp ! (m - 1)"
      using n0 by (simp add: take_Suc_conv_app_nth)
    then have "tmp ! (m - 1) = magnitude a * magnitude b"
      by (simp only: mval val)
    with pos show ?thesis by simp
  next
    case False
    with mlast show ?thesis by simp
  qed
  then have "well_formed \<lparr>sign = sign a \<noteq> sign b, digits = fd\<rparr>"
    using allfd fdne by (simp add: well_formed_def canonical_def lastfd)
  then have id: "?r = \<lparr>sign = sign a \<noteq> sign b, digits = fd\<rparr>"
    by (rule normalize_Integer_id)
  have dr: "digits ?r = take (trim_length tmp (length tmp)) tmp"
    unfolding id by (simp add: fd m_def)
  from t wf mag sg False rows len val dr show ?thesis by auto
qed

section \<open>Properties of multiplication, canonical form and the array constructor\<close>

text \<open>
  C7. For well-formed \<open>a\<close> and \<open>b\<close>, \<open>a * b\<close> returns a value. If an operand is zero it
  is the canonical zero. Otherwise the accumulator of \<open>len(a) + len(b)\<close> slots, filled
  row by row with the digit products and their carries, holds the product of the
  magnitudes; the result's digits are that accumulator without its most-significant
  zeros, in canonical form, and its sign is the exclusive or of the operands' signs.
  \<open>Integer(7) * Integer(-6)\<close> is written as \<open>-42\<close> into a stream as constructed.
\<close>

theorem times_Integer_schoolbook:
  assumes "well_formed a" "well_formed b"
  shows "(\<exists>r. times_Integer a b = Inr r
           \<and> (if isZero a \<or> isZero b then r = \<lparr>sign = False, digits = []\<rparr>
               else sign r = (sign a \<noteq> sign b) \<and> canonical r
                    \<and> magnitude r = magnitude a * magnitude b
                    \<and> (\<exists>tmp. mul_rows (digits a) (digits b) 0
                                 (replicate (length (digits a) + length (digits b)) 0) = Inr tmp
                          \<and> length tmp = length (digits a) + length (digits b)
                          \<and> digits_value tmp = magnitude a * magnitude b
                          \<and> digits r = take (trim_length tmp (length tmp)) tmp)))
       \<and> (\<exists>r. times_Integer (Integer_ll 7) (Integer_ll (- 6)) = Inr r
              \<and> fst (ostream_Integer default_ios r) = ''-42'')"
proof
  from times_Integer_spec [OF assms]
  obtain r where r: "times_Integer a b = Inr r" and wf: "well_formed r"
    and m: "magnitude r = magnitude a * magnitude b"
    and s: "sign r = (sign a \<noteq> sign b \<and> magnitude a * magnitude b \<noteq> 0)"
    and z: "isZero a \<or> isZero b \<longrightarrow> r = Integer_default"
    and acc: "\<not> isZero a \<and> \<not> isZero b \<longrightarrow>
                (\<exists>tmp. mul_rows (digits a) (digits b) 0
                         (replicate (length (digits a) + length (digits b)) 0) = Inr tmp
                    \<and> length tmp = length (digits a) + length (digits b)
                    \<and> digits_value tmp = magnitude a * magnitude b
                    \<and> digits r = take (trim_length tmp (length tmp)) tmp)"
    by blast
  show "\<exists>r. times_Integer a b = Inr r
           \<and> (if isZero a \<or> isZero b then r = \<lparr>sign = False, digits = []\<rparr>
               else sign r = (sign a \<noteq> sign b) \<and> canonical r
                    \<and> magnitude r = magnitude a * magnitude b
                    \<and> (\<exists>tmp. mul_rows (digits a) (digits b) 0
                                 (replicate (length (digits a) + length (digits b)) 0) = Inr tmp
                          \<and> length tmp = length (digits a) + length (digits b)
                          \<and> digits_value tmp = magnitude a * magnitude b
                          \<and> digits r = take (trim_length tmp (length tmp)) tmp))"
  proof (cases "isZero a \<or> isZero b")
    case True
    with r z show ?thesis by (simp add: Integer_default_def)
  next
    case False
    then have "magnitude a * magnitude b \<noteq> 0"
      using well_formed_zero_iff [OF assms(1)] well_formed_zero_iff [OF assms(2)]
      by (simp add: isZero_def)
    with s have "sign r = (sign a \<noteq> sign b)" by simp
    moreover have "canonical r" using wf by (simp add: well_formed_def)
    ultimately show ?thesis using r m acc False by simp
  qed
next
  have "times_Integer (Integer_ll 7) (Integer_ll (- 6)) = Inr \<lparr>sign = True, digits = [42]\<rparr>
      \<and> fst (ostream_Integer default_ios \<lparr>sign = True, digits = [42]\<rparr>) = ''-42''"
    by code_simp
  then show "\<exists>r. times_Integer (Integer_ll 7) (Integer_ll (- 6)) = Inr r
              \<and> fst (ostream_Integer default_ios r) = ''-42''"
    by blast
qed

theorem times_Integer_schoolbook_witness:
  "well_formed \<lparr>sign = False, digits = [5, 1]\<rparr> \<and> well_formed \<lparr>sign = True, digits = [12, 3]\<rparr>
   \<and> (\<exists>r. times_Integer \<lparr>sign = False, digits = [5, 1]\<rparr> \<lparr>sign = True, digits = [12, 3]\<rparr> = Inr r
          \<and> sign r \<and> magnitude r = 32760)"
proof -
  have h1: "well_formed \<lparr>sign = False, digits = [5, 1]\<rparr>"
    by (simp add: well_formed_def canonical_def BASE_def)
  have h2: "well_formed \<lparr>sign = True, digits = [12, 3]\<rparr>"
    by (simp add: well_formed_def canonical_def BASE_def)
  from times_Integer_schoolbook [OF h1 h2, THEN conjunct1]
  obtain r where "times_Integer \<lparr>sign = False, digits = [5, 1]\<rparr> \<lparr>sign = True, digits = [12, 3]\<rparr> = Inr r"
    and "sign r" and "magnitude r = 32760"
    by (auto simp: isZero_def magnitude_def BASE_def)
  with h1 h2 show ?thesis by blast
qed

subsection \<open>Canonical form of every value a caller can hold\<close>

lemma push_digits_props:
  "list_all (\<lambda>d. d < BASE) (push_digits v) \<and> (0 < v \<longrightarrow> last (push_digits v) \<noteq> 0)"
proof (induction v rule: less_induct)
  case (less v)
  show ?case
  proof (cases "0 < v")
    case False
    then show ?thesis by (simp add: push_digits_0)
  next
    case True
    have lt: "v div 100 < v" using True by simp
    note IH = less.IH [OF lt]
    have m: "v mod 100 < BASE" by (simp add: BASE_def)
    show ?thesis
    proof (cases "v < 100")
      case small: True
      with True m show ?thesis by (simp add: push_digits_Cons push_digits_0)
    next
      case False
      then have "0 < v div 100" by simp
      with IH True m show ?thesis
        by (simp add: push_digits_Cons push_digits_Nil_iff)
    qed
  qed
qed

lemma Integer_ll_well_formed: "well_formed (Integer_ll i)"
proof (cases "sint i = 0")
  case True
  then show ?thesis
    by (simp add: Integer_ll_eq push_digits_0 well_formed_def canonical_def)
next
  case False
  then have "0 < nat \<bar>sint i\<bar>" by simp
  with push_digits_props [of "nat \<bar>sint i\<bar>"] show ?thesis
    by (simp add: Integer_ll_eq well_formed_def canonical_def push_digits_Nil_iff del: abs_if)
qed

lemma Integer_vec_well_formed: "Integer_vec s ds = Inr r \<Longrightarrow> well_formed r"
proof -
  assume a: "Integer_vec s ds = Inr r"
  then have "\<not> list_ex (\<lambda>dig. BASE \<le> dig) ds" by (auto simp: Integer_vec_def split: if_splits)
  then have all: "list_all (\<lambda>d. d < BASE) ds" by (auto simp: list_all_iff list_ex_iff)
  with a have "r = normalize_Integer \<lparr>sign = s, digits = ds\<rparr>" by (simp add: Integer_vec_ok)
  with all show ?thesis by (simp add: normalize_Integer_well_formed)
qed

lemma char_value_cases:
  fixes c :: "8 word"
  shows "(0 \<le> sint c \<and> uint c = sint c) \<or> (sint c < 0 \<and> 128 \<le> uint c)"
proof -
  have u: "uint c = sint c mod 256" by (simp add: uint_sint take_bit_eq_mod)
  have lo: "- 128 \<le> sint c" using sint_ge [of c] by simp
  have hi: "sint c < 128" using sint_lt [of c] by simp
  show ?thesis
  proof (cases "0 \<le> sint c")
    case True
    with hi u have "uint c = sint c" by simp
    with True show ?thesis by blast
  next
    case False
    have "(sint c + 256) mod 256 = sint c + 256"
      using lo False by (intro mod_pos_pos_trivial) simp_all
    then have "sint c mod 256 = sint c + 256" by simp
    with u lo have "128 \<le> uint c" by simp
    with False show ?thesis by auto
  qed
qed

lemma bad_char_unat: "bad_char c \<longleftrightarrow> BASE \<le> unat c"
proof -
  from char_value_cases [of c]
  consider (nonneg) "0 \<le> sint c" | (neg) "sint c < 0" "128 \<le> uint c" by linarith
  then show ?thesis
  proof cases
    case nonneg
    then show ?thesis by (simp add: bad_char_def word_sless_alt)
  next
    case neg
    then have "int BASE \<le> int (unat c)" by (simp add: BASE_def)
    then have "BASE \<le> unat c" by (simp only: of_nat_le_iff)
    with neg show ?thesis by (simp add: bad_char_def)
  qed
qed

lemma bad_char_range: "bad_char c \<longleftrightarrow> \<not> (0 \<le> sint c \<and> sint c < 100)"
proof -
  from char_value_cases [of c]
  consider (nonneg) "0 \<le> sint c" "uint c = sint c" | (neg) "sint c < 0" by linarith
  then show ?thesis
  proof cases
    case nonneg
    have "BASE \<le> unat c \<longleftrightarrow> int BASE \<le> int (unat c)" by (simp only: of_nat_le_iff)
    also have "\<dots> \<longleftrightarrow> 100 \<le> uint c" by (simp add: BASE_def)
    also have "\<dots> \<longleftrightarrow> 100 \<le> sint c" by (simp only: nonneg(2))
    finally show ?thesis using nonneg(1) by (auto simp: bad_char_unat)
  next
    case neg
    then show ?thesis by (simp add: bad_char_def word_sless_alt)
  qed
qed

lemma good_char_digit: "\<not> bad_char c \<Longrightarrow> to_DigitType (uint c) = unat c \<and> unat c < BASE"
proof -
  assume "\<not> bad_char c"
  then have lt: "unat c < BASE" by (simp add: bad_char_unat)
  have "uint c = int (unat c)" by simp
  moreover have "to_DigitType (int (unat c)) = unat c"
    using lt by (intro to_DigitType_small) (simp add: BASE_def)
  ultimately show ?thesis using lt by simp
qed
lemma copy_digits_Inr:
  "copy_digits d m i ds = Inr r \<Longrightarrow> list_all (\<lambda>x. x < BASE) ds \<Longrightarrow> list_all (\<lambda>x. x < BASE) r"
proof (induction d m i ds rule: copy_digits.induct)
  case (1 d m i ds)
  show ?case
  proof (cases "i < m")
    case False
    with "1.prems" show ?thesis by (subst (asm) copy_digits.simps) simp
  next
    case True
    show ?thesis
    proof (cases "bad_char (d ! i)")
      case bad: True
      with True "1.prems"(1) show ?thesis by (subst (asm) copy_digits.simps) simp
    next
      case False
      from "1.prems"(1) True False
      have c: "copy_digits d m (i + 1) (ds @ [to_DigitType (uint (d ! i))]) = Inr r"
        by (subst (asm) copy_digits.simps) simp
      have "list_all (\<lambda>x. x < BASE) (ds @ [to_DigitType (uint (d ! i))])"
        using "1.prems"(2) good_char_digit [OF False] by simp
      from "1.IH" [OF True False c this] show ?thesis .
    qed
  qed
qed

lemma copy_digits_Inl:
  "copy_digits d m i ds = Inl e \<Longrightarrow>
   e = invalid_argument ''Invalid digit in char* constructor'' \<and> (\<exists>k. i \<le> k \<and> k < m \<and> bad_char (d ! k))"
proof (induction d m i ds rule: copy_digits.induct)
  case (1 d m i ds)
  show ?case
  proof (cases "i < m")
    case False
    with "1.prems" show ?thesis by (subst (asm) copy_digits.simps) simp
  next
    case True
    show ?thesis
    proof (cases "bad_char (d ! i)")
      case bad: True
      from "1.prems" True bad
      have "e = invalid_argument ''Invalid digit in char* constructor''"
        by (subst (asm) copy_digits.simps) simp
      with True bad show ?thesis by blast
    next
      case False
      from "1.prems" True False
      have c: "copy_digits d m (i + 1) (ds @ [to_DigitType (uint (d ! i))]) = Inl e"
        by (subst (asm) copy_digits.simps) simp
      from "1.IH" [OF True False c]
      obtain k where "e = invalid_argument ''Invalid digit in char* constructor''"
        and "i + 1 \<le> k" and "k < m" and "bad_char (d ! k)" by blast
      then have "i \<le> k" by simp
      with \<open>e = _\<close> \<open>k < m\<close> \<open>bad_char (d ! k)\<close> show ?thesis by blast
    qed
  qed
qed

lemma skip_zeros_le: "skip_zeros d m \<le> m"
proof (induction d m rule: skip_zeros.induct)
  case (1 d m)
  show ?case
  proof (cases "1 < m \<and> d ! (m - 1) = 0")
    case True
    then have "skip_zeros d m = skip_zeros d (m - 1)" by (subst skip_zeros.simps) simp
    with "1.IH" [OF True] show ?thesis by simp
  next
    case False
    then have "skip_zeros d m = m" by (subst skip_zeros.simps) auto
    then show ?thesis by simp
  qed
qed

lemma Integer_array_well_formed: "Integer_array s n d = Inr r \<Longrightarrow> well_formed r"
proof -
  assume a: "Integer_array s n d = Inr r"
  have zero: "well_formed \<lparr>sign = False, digits = []\<rparr>"
    by (simp add: well_formed_def canonical_def)
  show ?thesis
  proof (cases d)
    case None
    with a zero show ?thesis by (simp add: Integer_array_def)
  next
    case (Some arr)
    show ?thesis
    proof (cases "copy_digits arr (skip_zeros arr (nat n)) 0 []")
      case (Inl e)
      with a Some zero show ?thesis
        by (auto simp: Integer_array_def Let_def split: if_splits)
    next
      case (Inr ds)
      then have "list_all (\<lambda>x. x < BASE) ds" by (rule copy_digits_Inr) simp
      then have "well_formed (normalize_Integer \<lparr>sign = s, digits = ds\<rparr>)"
        by (simp add: normalize_Integer_well_formed)
      with a Some Inr zero show ?thesis
        by (auto simp: Integer_array_def Let_def split: if_splits)
    qed
  qed
qed

lemma abs_Integer_well_formed: "well_formed i \<Longrightarrow> well_formed (abs_Integer i)"
  by (simp add: abs_Integer_def uminus_Integer_well_formed)

lemma exposed_well_formed: "exposed x \<Longrightarrow> well_formed x"
proof (induction rule: exposed.induct)
  case exposed_default
  show ?case by (rule well_formed_default)
next
  case (exposed_ll i)
  show ?case by (rule Integer_ll_well_formed)
next
  case (exposed_array s n d r)
  then show ?case by (rule Integer_array_well_formed)
next
  case (exposed_vec s d_vec r)
  then show ?case by (rule Integer_vec_well_formed)
next
  case (exposed_uminus a)
  then show ?case by (simp add: uminus_Integer_well_formed)
next
  case (exposed_plus a b r)
  with plus_Integer_spec [of a b] show ?case by auto
next
  case (exposed_minus a b r)
  with plus_Integer_spec [of a "uminus_Integer b"] show ?case
    by (auto simp: minus_Integer_def uminus_Integer_well_formed)
next
  case (exposed_times a b r)
  with times_Integer_spec [of a b] show ?case by auto
next
  case (exposed_abs a)
  then show ?case by (simp add: abs_Integer_well_formed)
qed

text \<open>
  C4. Every \<open>Integer\<close> that a constructor, unary minus, addition, subtraction,
  multiplication or \<open>abs\<close> hands to a caller has no most-significant zero digit, and is
  zero exactly when it has no digits, in which case its sign flag is false.
\<close>

theorem exposed_canonical:
  assumes "exposed x"
  shows "(if digits x = [] then \<not> sign x else last (digits x) \<noteq> 0)
       \<and> (magnitude x = 0 \<longleftrightarrow> digits x = [])
       \<and> (isZero x \<longleftrightarrow> digits x = [])
       \<and> list_all (\<lambda>d. d < BASE) (digits x)"
proof -
  have wf: "well_formed x" using assms by (rule exposed_well_formed)
  then have "canonical x" and "list_all (\<lambda>d. d < BASE) (digits x)"
    by (simp_all add: well_formed_def)
  with well_formed_zero_iff [OF wf] show ?thesis
    by (simp add: canonical_def isZero_def)
qed

theorem exposed_canonical_witness:
  "exposed \<lparr>sign = True, digits = [42]\<rparr>
   \<and> last (digits \<lparr>sign = True, digits = [42]\<rparr>) \<noteq> 0
   \<and> magnitude \<lparr>sign = True, digits = [42]\<rparr> \<noteq> 0"
proof -
  have "times_Integer (Integer_ll 7) (Integer_ll (- 6)) = Inr \<lparr>sign = True, digits = [42]\<rparr>"
    by code_simp
  with exposed_ll [of 7] exposed_ll [of "- 6"]
  have e: "exposed \<lparr>sign = True, digits = [42]\<rparr>" by (rule exposed_times)
  from exposed_canonical [OF e] e show ?thesis by simp
qed

text \<open>
  C9. The constructor from a sign, a length and a byte array returns the canonical zero,
  and no error, when the length is not positive or the pointer is null. It throws
  \<open>invalid_argument\<close> only when one of the first \<open>n\<close> bytes that are left once the
  most-significant zero bytes are skipped is outside \<open>[0, 100)\<close>, read as a signed or as
  an unsigned byte.
\<close>

theorem Integer_array_failures:
  "(n \<le> 0 \<or> d = None \<longrightarrow> Integer_array s n d = Inr \<lparr>sign = False, digits = []\<rparr>)
   \<and> (Integer_array s n (Some a) = Inl (invalid_argument msg) \<longrightarrow>
        (\<exists>i. i < skip_zeros a (nat n) \<and> i < nat n \<and> i < length a
            \<and> \<not> (0 \<le> sint (a ! i) \<and> sint (a ! i) < 100) \<and> \<not> unat (a ! i) < 100))"
proof (intro conjI impI)
  assume "n \<le> 0 \<or> d = None"
  then show "Integer_array s n d = Inr \<lparr>sign = False, digits = []\<rparr>"
    by (cases d) (auto simp: Integer_array_def)
next
  assume e: "Integer_array s n (Some a) = Inl (invalid_argument msg)"
  let ?m = "skip_zeros a (nat n)"
  from e have n: "0 < n" "n \<le> int (length a)"
    by (auto simp: Integer_array_def Let_def split: if_splits)
  from e have "copy_digits a ?m 0 [] = Inl (invalid_argument msg)"
    by (auto simp: Integer_array_def Let_def split: if_splits sum.splits)
  from copy_digits_Inl [OF this]
  obtain k where k: "k < ?m" and bad: "bad_char (a ! k)" by blast
  have "?m \<le> nat n" by (rule skip_zeros_le)
  with k n have "k < nat n" "k < length a" by simp_all
  moreover from bad have "\<not> (0 \<le> sint (a ! k) \<and> sint (a ! k) < 100)"
    by (simp add: bad_char_range)
  moreover from bad have "\<not> unat (a ! k) < 100"
    by (simp add: bad_char_unat BASE_def)
  ultimately show "\<exists>i. i < ?m \<and> i < nat n \<and> i < length a
            \<and> \<not> (0 \<le> sint (a ! i) \<and> sint (a ! i) < 100) \<and> \<not> unat (a ! i) < 100"
    using k by blast
qed

theorem Integer_array_failures_witness:
  "Integer_array True 0 (Some [7]) = Inr \<lparr>sign = False, digits = []\<rparr>
   \<and> Integer_array False 5 (Some [99, 66, 133, 0, 0])
       = Inl (invalid_argument ''Invalid digit in char* constructor'')
   \<and> (\<exists>i. i < 5 \<and> \<not> unat ([99, 66, 133, 0, 0 :: 8 word] ! i) < 100)"
proof -
  have t: "Integer_array False 5 (Some [99, 66, 133, 0, 0])
       = Inl (invalid_argument ''Invalid digit in char* constructor'')"
    by code_simp
  from Integer_array_failures [of 0 "Some [7]" True "[99, 66, 133, 0, 0]" "''Invalid digit in char* constructor''", THEN conjunct1]
  have z: "Integer_array True 0 (Some [7]) = Inr \<lparr>sign = False, digits = []\<rparr>" by simp
  from Integer_array_failures [of 5 None False "[99, 66, 133, 0, 0]" "''Invalid digit in char* constructor''", THEN conjunct2] t
  obtain i where "i < nat 5" and "\<not> unat ([99, 66, 133, 0, 0 :: 8 word] ! i) < 100"
    by blast
  then have "\<exists>i. i < 5 \<and> \<not> unat ([99, 66, 133, 0, 0 :: 8 word] ! i) < 100" by auto
  with z t show ?thesis by simp
qed

section \<open>Rational: what the constructor does establish\<close>

lemma times_Integer_value:
  assumes "well_formed a" "well_formed b"
  shows "\<exists>r. times_Integer a b = Inr r \<and> well_formed r
           \<and> int_of_Integer r = int_of_Integer a * int_of_Integer b"
proof -
  from times_Integer_spec [OF assms]
  obtain r where r: "times_Integer a b = Inr r" and wf: "well_formed r"
    and m: "magnitude r = magnitude a * magnitude b"
    and s: "sign r = (sign a \<noteq> sign b \<and> magnitude a * magnitude b \<noteq> 0)"
    by blast
  have "int_of_Integer r = int_of_Integer a * int_of_Integer b"
    using m s by (auto simp: int_of_Integer_def)
  with r wf show ?thesis by blast
qed

lemma int_of_Integer_0_iff: "well_formed i \<Longrightarrow> int_of_Integer i = 0 \<longleftrightarrow> isZero i"
  using well_formed_zero_iff [of i] by (simp add: int_of_Integer_def isZero_def)

lemma isNegative_iff: "well_formed i \<Longrightarrow> isNegative i \<longleftrightarrow> int_of_Integer i < 0"
  using well_formed_zero_iff [of i]
  by (auto simp: int_of_Integer_def isNegative_def isZero_def)

lemma Integer_ll_1: "Integer_ll 1 = \<lparr>sign = False, digits = [1]\<rparr>"
  by code_simp

lemma int_of_Integer_ll_1: "int_of_Integer (Integer_ll 1) = 1"
  by (simp add: Integer_ll_1 int_of_Integer_def magnitude_def)

text \<open>
  \<open>normalize\<close> keeps the fraction, makes the denominator positive and stores zero as
  \<open>0/1\<close>. It does not divide by the greatest common divisor.
\<close>

lemma normalize_Rational_spec:
  assumes "well_formed n" "well_formed d" "\<not> isZero d"
  shows "well_formed (num (normalize_Rational \<lparr>num = n, den = d\<rparr>))"
    and "well_formed (den (normalize_Rational \<lparr>num = n, den = d\<rparr>))"
    and "0 < int_of_Integer (den (normalize_Rational \<lparr>num = n, den = d\<rparr>))"
    and "int_of_Integer (num (normalize_Rational \<lparr>num = n, den = d\<rparr>)) * int_of_Integer d
           = int_of_Integer n * int_of_Integer (den (normalize_Rational \<lparr>num = n, den = d\<rparr>))"
    and "isZero (num (normalize_Rational \<lparr>num = n, den = d\<rparr>))
           \<longrightarrow> den (normalize_Rational \<lparr>num = n, den = d\<rparr>) = Integer_ll 1"
proof -
  let ?r = "normalize_Rational \<lparr>num = n, den = d\<rparr>"
  have d0: "int_of_Integer d \<noteq> 0" using assms(2,3) by (simp add: int_of_Integer_0_iff)
  have wf1: "well_formed (Integer_ll 1)" by (rule Integer_ll_well_formed)
  note un = uminus_Integer_well_formed [OF assms(1)]
  note ud = uminus_Integer_well_formed [OF assms(2)]
  note vn = int_of_uminus_Integer [OF assms(1)]
  note vd = int_of_uminus_Integer [OF assms(2)]
  have zn: "isZero (uminus_Integer n) \<longleftrightarrow> isZero n"
    by (simp add: uminus_Integer_def isZero_def)
  consider (neg_zero) "isNegative d" "isZero n" | (neg) "isNegative d" "\<not> isZero n"
    | (pos_zero) "\<not> isNegative d" "isZero n" | (pos) "\<not> isNegative d" "\<not> isZero n"
    by blast
  then have "well_formed (num ?r) \<and> well_formed (den ?r) \<and> 0 < int_of_Integer (den ?r)
      \<and> int_of_Integer (num ?r) * int_of_Integer d = int_of_Integer n * int_of_Integer (den ?r)
      \<and> (isZero (num ?r) \<longrightarrow> den ?r = Integer_ll 1)"
  proof cases
    case neg_zero
    then have r: "?r = \<lparr>num = uminus_Integer n, den = Integer_ll 1\<rparr>"
      by (simp add: normalize_Rational_def zn)
    have "int_of_Integer n = 0" using neg_zero(2) assms(1) by (simp add: int_of_Integer_0_iff)
    then show ?thesis
      unfolding r using un wf1 by (simp add: vn int_of_Integer_ll_1)
  next
    case neg
    then have r: "?r = \<lparr>num = uminus_Integer n, den = uminus_Integer d\<rparr>"
      by (simp add: normalize_Rational_def zn)
    have "int_of_Integer d < 0" using neg(1) assms(2) by (simp add: isNegative_iff)
    then show ?thesis
      unfolding r using un ud neg(2) by (simp add: vn vd zn)
  next
    case pos_zero
    then have r: "?r = \<lparr>num = n, den = Integer_ll 1\<rparr>"
      by (simp add: normalize_Rational_def)
    have "int_of_Integer n = 0" using pos_zero(2) assms(1) by (simp add: int_of_Integer_0_iff)
    then show ?thesis
      unfolding r using assms(1) wf1 by (simp add: int_of_Integer_ll_1)
  next
    case pos
    then have r: "?r = \<lparr>num = n, den = d\<rparr>"
      by (simp add: normalize_Rational_def)
    have "\<not> int_of_Integer d < 0" using pos(1) assms(2) by (simp add: isNegative_iff)
    with d0 have "0 < int_of_Integer d" by simp
    then show ?thesis
      unfolding r using assms(1,2) pos(2) by simp
  qed
  then show "well_formed (num ?r)" and "well_formed (den ?r)" and "0 < int_of_Integer (den ?r)"
    and "int_of_Integer (num ?r) * int_of_Integer d = int_of_Integer n * int_of_Integer (den ?r)"
    and "isZero (num ?r) \<longrightarrow> den ?r = Integer_ll 1"
    by blast+
qed

lemma eq_Rational_value:
  assumes "well_formed (num a)" "well_formed (den a)" "well_formed (num r)" "well_formed (den r)"
  shows "eq_Rational a r
           = Inr (int_of_Integer (num a) * int_of_Integer (den r)
                    = int_of_Integer (den a) * int_of_Integer (num r))"
proof -
  from times_Integer_value [OF assms(1,4)]
  obtain p where p: "times_Integer (num a) (den r) = Inr p" and wp: "well_formed p"
    and vp: "int_of_Integer p = int_of_Integer (num a) * int_of_Integer (den r)" by blast
  from times_Integer_value [OF assms(2,3)]
  obtain q where q: "times_Integer (den a) (num r) = Inr q" and wq: "well_formed q"
    and vq: "int_of_Integer q = int_of_Integer (den a) * int_of_Integer (num r)" by blast
  show ?thesis
    by (simp add: eq_Rational_def and_then_def p q eq_Integer_iff [OF wp wq] vp vq)
qed

text \<open>
  Scaling numerator and denominator by the same non-zero \<open>k\<close> before construction gives
  a value that \<open>operator==\<close> finds equal to the unscaled one. (Their texts differ: see C2.)
\<close>

lemma Rational_scaled_equal:
  assumes "well_formed n" "well_formed d" "well_formed k" "\<not> isZero d" "\<not> isZero k"
  shows "\<exists>nk dk r1 r2. times_Integer n k = Inr nk \<and> times_Integer d k = Inr dk
           \<and> Rational_ctor nk dk = Inr r1 \<and> Rational_ctor n d = Inr r2
           \<and> eq_Rational r1 r2 = Inr True"
proof -
  from times_Integer_value [OF assms(1,3)]
  obtain nk where nk: "times_Integer n k = Inr nk" and wnk: "well_formed nk"
    and vnk: "int_of_Integer nk = int_of_Integer n * int_of_Integer k" by blast
  from times_Integer_value [OF assms(2,3)]
  obtain dk where dk: "times_Integer d k = Inr dk" and wdk: "well_formed dk"
    and vdk: "int_of_Integer dk = int_of_Integer d * int_of_Integer k" by blast
  have d0: "int_of_Integer d \<noteq> 0" using assms(2,4) by (simp add: int_of_Integer_0_iff)
  have k0: "int_of_Integer k \<noteq> 0" using assms(3,5) by (simp add: int_of_Integer_0_iff)
  have "int_of_Integer dk \<noteq> 0" using d0 k0 by (simp add: vdk)
  then have dkz: "\<not> isZero dk" using wdk by (simp add: int_of_Integer_0_iff)
  let ?r1 = "normalize_Rational \<lparr>num = nk, den = dk\<rparr>"
  let ?r2 = "normalize_Rational \<lparr>num = n, den = d\<rparr>"
  have c1: "Rational_ctor nk dk = Inr ?r1" using dkz by (simp add: Rational_ctor_def)
  have c2: "Rational_ctor n d = Inr ?r2" using assms(4) by (simp add: Rational_ctor_def)
  note s1 = normalize_Rational_spec [OF wnk wdk dkz]
  note s2 = normalize_Rational_spec [OF assms(1,2,4)]
  define N1 where "N1 = int_of_Integer (num ?r1)"
  define D1 where "D1 = int_of_Integer (den ?r1)"
  define N2 where "N2 = int_of_Integer (num ?r2)"
  define D2 where "D2 = int_of_Integer (den ?r2)"
  define vn where "vn = int_of_Integer n"
  define vd where "vd = int_of_Integer d"
  define vk where "vk = int_of_Integer k"
  have e1: "N1 * (vd * vk) = (vn * vk) * D1"
    using s1(4) by (simp add: N1_def D1_def vn_def vd_def vk_def vnk vdk)
  have e2: "N2 * vd = vn * D2"
    using s2(4) by (simp add: N2_def D2_def vn_def vd_def)
  have "(N1 * vd) * vk = (vn * D1) * vk" using e1 by (simp add: ac_simps)
  then have e1': "N1 * vd = vn * D1" using k0 by (simp add: vk_def)
  have "(N1 * D2) * vd = (N1 * vd) * D2" by (simp add: ac_simps)
  also have "\<dots> = (vn * D1) * D2" by (simp only: e1')
  also have "\<dots> = D1 * (vn * D2)" by (simp add: ac_simps)
  also have "\<dots> = D1 * (N2 * vd)" by (simp only: e2)
  also have "\<dots> = (D1 * N2) * vd" by (simp add: ac_simps)
  finally have "N1 * D2 = D1 * N2" using d0 by (simp add: vd_def)
  then have "eq_Rational ?r1 ?r2 = Inr True"
    by (simp add: eq_Rational_value [OF s1(1,2) s2(1,2)] N1_def D1_def N2_def D2_def)
  with nk dk c1 c2 show ?thesis by blast
qed

section \<open>Properties of Rational\<close>

text \<open>
  C3, as the code has it. A zero denominator ends the process: the constructor writes
  its message to the error stream and calls \<^verbatim>\<open>exit(EXIT_FAILURE)\<close>, for every numerator.
  Nothing is thrown or returned, and the denominator is not replaced by another value.
\<close>

theorem Rational_ctor_zero_denominator:
  assumes "isZero d"
  shows "Rational_ctor n d = Inl (exit_failure ''Error: Rational denominator cannot be zero.'')
       \<and> \<not> recoverable (exit_failure ''Error: Rational denominator cannot be zero.'')"
  using assms by (simp add: Rational_ctor_def)

theorem Rational_ctor_zero_denominator_witness:
  "isZero (Integer_ll 0)
   \<and> Rational_ctor (Integer_ll 5) (Integer_ll 0)
       = Inl (exit_failure ''Error: Rational denominator cannot be zero.'')"
proof -
  have z: "isZero (Integer_ll 0)" by (simp add: Integer_ll_def isZero_def)
  from Rational_ctor_zero_denominator [OF z, of "Integer_ll 5"] z show ?thesis by simp
qed

text \<open>
  C3, as the specification words it (a recoverable error, never the end of the process),
  fails at \<open>Rational(1, 0)\<close>: the failure is the process exit, which is not recoverable.
\<close>

theorem Rational_ctor_zero_denominator_counterexample:
  "Rational_ctor (Integer_ll 1) (Integer_ll 0)
     = Inl (exit_failure ''Error: Rational denominator cannot be zero.'')
   \<and> \<not> recoverable (exit_failure ''Error: Rational denominator cannot be zero.'')"
  by (simp add: Rational_ctor_def Integer_ll_def isZero_def)

text \<open>
  C1, at \<open>Rational(2, 4)\<close>: the constructor keeps numerator 2 and denominator 4, whose
  greatest common divisor is 2. \<open>normalize\<close> makes the denominator positive and turns a
  zero numerator into \<open>0/1\<close>; it has no reduction step, although the header documents
  \<open>gcd(num, den) == 1\<close> as its postcondition.
\<close>

theorem Rational_ctor_not_reduced:
  "Rational_ctor (Integer_ll 2) (Integer_ll 4)
     = Inr \<lparr>num = \<lparr>sign = False, digits = [2]\<rparr>, den = \<lparr>sign = False, digits = [4]\<rparr>\<rparr>
   \<and> gcd (magnitude \<lparr>sign = False, digits = [2]\<rparr>) (magnitude \<lparr>sign = False, digits = [4]\<rparr>) = 2"
  by code_simp

text \<open>
  C2, at \<open>n = 1\<close>, \<open>d = 2\<close>, \<open>k = 2\<close>: \<open>Rational(2, 4)\<close> and \<open>Rational(1, 2)\<close>
  compare equal under \<open>operator==\<close>, which cross-multiplies, but into a stream as
  constructed the first is written as \<open>2/4\<close> and the second as \<open>1/2\<close>.
\<close>

theorem Rational_scaled_output_differs:
  "Rational_ctor (Integer_ll 2) (Integer_ll 4)
     = Inr \<lparr>num = \<lparr>sign = False, digits = [2]\<rparr>, den = \<lparr>sign = False, digits = [4]\<rparr>\<rparr>
   \<and> Rational_ctor (Integer_ll 1) (Integer_ll 2)
     = Inr \<lparr>num = \<lparr>sign = False, digits = [1]\<rparr>, den = \<lparr>sign = False, digits = [2]\<rparr>\<rparr>
   \<and> eq_Rational \<lparr>num = \<lparr>sign = False, digits = [2]\<rparr>, den = \<lparr>sign = False, digits = [4]\<rparr>\<rparr>
                  \<lparr>num = \<lparr>sign = False, digits = [1]\<rparr>, den = \<lparr>sign = False, digits = [2]\<rparr>\<rparr>
     = Inr True
   \<and> fst (ostream_Rational default_ios
          \<lparr>num = \<lparr>sign = False, digits = [2]\<rparr>, den = \<lparr>sign = False, digits = [4]\<rparr>\<rparr>)
     = ''2/4''
   \<and> fst (ostream_Rational default_ios
          \<lparr>num = \<lparr>sign = False, digits = [1]\<rparr>, den = \<lparr>sign = False, digits = [2]\<rparr>\<rparr>)
     = ''1/2''"
  by code_simp

end
